theory Spec2Isabelle
  imports Complex_Main "HOL-Library.Word"
begin

unbundle bit_operations_syntax

section \<open>JavaScript values used by the voice bridge\<close>

text \<open>
  A JavaScript string is a sequence of 16-bit code units. The binary strings handed to
  \<open>btoa\<close> and returned by \<open>atob\<close>, the base64 payloads and the transcript texts are all
  values of this type.

  A \<open>Float32Array\<close> holds single-precision numbers. The model covers its finite values,
  as real numbers. Every arithmetic step of the encoder and of the decoder is exact on
  them: the clamp returns its argument or a bound, a product of a 24-bit significand
  with 32767 or 32768 fits the 53 bits of a double, and a 16-bit integer divided by
  32768 is a single-precision number. So no rounding is left out of the codec.

  Clock values and durations are double-precision numbers. The scheduler adds and
  divides them, and those results are rounded: see \<open>fl64\<close> below.
\<close>

type_synonym jsstring = "16 word list"

datatype js_error =
    InvalidCharacterError  \<comment> \<open>\<open>btoa\<close> on a code unit above 255, \<open>atob\<close> on malformed base64\<close>
  | RangeError             \<comment> \<open>an \<open>Int16Array\<close> over a buffer of odd byte length\<close>
  | NotSupportedError      \<comment> \<open>\<open>createBuffer\<close> with zero frames\<close>
  | PlaybackStopError      \<comment> \<open>\<open>stop()\<close> on a source whose playback has already finished\<close>
  | InvalidStateError      \<comment> \<open>\<open>close()\<close> on an audio context that is closed already\<close>

definition of_ascii :: "string \<Rightarrow> jsstring" where
  "of_ascii cs = map of_char cs"

subsection \<open>Base64: the platform's \<open>btoa\<close> and \<open>atob\<close>\<close>

text \<open>
  The alphabet of RFC 4648: \<open>A\<close>-\<open>Z\<close>, \<open>a\<close>-\<open>z\<close>, \<open>0\<close>-\<open>9\<close>, \<open>+\<close>, \<open>/\<close>, as code units.
\<close>

definition b64_char :: "nat \<Rightarrow> 16 word" where
  "b64_char i =
     of_nat (if i < 26 then 65 + i
             else if i < 52 then 97 + (i - 26)
             else if i < 62 then 48 + (i - 52)
             else if i = 62 then 43 else 47)"

definition b64_index :: "16 word \<Rightarrow> nat option" where
  "b64_index w =
     (let c = unat w in
      if 65 \<le> c \<and> c \<le> 90 then Some (c - 65)
      else if 97 \<le> c \<and> c \<le> 122 then Some (c - 97 + 26)
      else if 48 \<le> c \<and> c \<le> 57 then Some (c - 48 + 52)
      else if c = 43 then Some 62
      else if c = 47 then Some 63
      else None)"

definition b64_pad :: "16 word" where
  "b64_pad = 61"

text \<open>Three octets become four sextets; a last group of one or two octets is zero-filled.\<close>

fun b64_sextets :: "nat list \<Rightarrow> nat list" where
  "b64_sextets (a # b # c # r) =
     [a div 4, (a mod 4) * 16 + b div 16, (b mod 16) * 4 + c div 64, c mod 64] @ b64_sextets r"
| "b64_sextets [a, b] = [a div 4, (a mod 4) * 16 + b div 16, (b mod 16) * 4]"
| "b64_sextets [a] = [a div 4, (a mod 4) * 16]"
| "b64_sextets [] = []"

text \<open>
  Four sextets become three octets; of a last group of two or three sextets the
  surplus bits are dropped.
\<close>

fun b64_octets :: "nat list \<Rightarrow> nat list" where
  "b64_octets (p # q # r # t # rest) =
     [p * 4 + q div 16, (q mod 16) * 16 + r div 4, (r mod 4) * 64 + t] @ b64_octets rest"
| "b64_octets [p, q, r] = [p * 4 + q div 16, (q mod 16) * 16 + r div 4]"
| "b64_octets [p, q] = [p * 4 + q div 16]"
| "b64_octets [p] = []"
| "b64_octets [] = []"

text \<open>
  \<open>btoa\<close> throws on a code unit above 255 and otherwise encodes the code units as octets,
  padding the output with \<open>=\<close> to a multiple of four characters.
\<close>

definition btoa :: "jsstring \<Rightarrow> js_error + jsstring" where
  "btoa s =
     (if list_ex (\<lambda>c. 255 < c) s then Inl InvalidCharacterError
      else Inr (map b64_char (b64_sextets (map unat s))
                @ replicate ((3 - length s mod 3) mod 3) b64_pad))"

text \<open>
  \<open>atob\<close> is the forgiving base64 decoder of the HTML standard: ASCII whitespace is
  removed; if the length is then a multiple of four, one or two trailing \<open>=\<close> are
  removed; a length of 1 modulo 4 or a character outside the alphabet is an error.
\<close>

definition is_ascii_whitespace :: "16 word \<Rightarrow> bool" where
  "is_ascii_whitespace c = (c = 9 \<or> c = 10 \<or> c = 12 \<or> c = 13 \<or> c = 32)"

definition strip_padding :: "jsstring \<Rightarrow> jsstring" where
  "strip_padding d =
     (if length d mod 4 = 0 then
        (if 2 \<le> length d \<and> last d = b64_pad \<and> last (butlast d) = b64_pad
           then butlast (butlast d)
         else if d \<noteq> [] \<and> last d = b64_pad then butlast d
         else d)
      else d)"

definition atob :: "jsstring \<Rightarrow> js_error + jsstring" where
  "atob s =
     (let d = strip_padding (filter (\<lambda>c. \<not> is_ascii_whitespace c) s) in
      if length d mod 4 = 1 then Inl InvalidCharacterError
      else (case those (map b64_index d) of
              None \<Rightarrow> Inl InvalidCharacterError
            | Some vs \<Rightarrow> Inr (map of_nat (b64_octets vs))))"

subsection \<open>Double-precision arithmetic\<close>

text \<open>
  A JavaScript number is an IEEE 754 binary64 value: a sum, a quotient is the exact
  result rounded to the nearest number with a 53-bit significand, ties going to the
  even significand. \<open>fl64\<close> is that rounding on the real numbers, with gradual underflow
  below \<open>2\<^sup>-\<^sup>1\<^sup>0\<^sup>2\<^sup>2\<close>. Overflow to infinity, beyond \<open>2\<^sup>1\<^sup>0\<^sup>2\<^sup>4\<close>, is not part of the model: the
  numbers added here are a clock that counts seconds and the length of a buffer in
  seconds.
\<close>

definition round_half_even :: "real \<Rightarrow> int" where
  "round_half_even q =
     (let f = \<lfloor>q\<rfloor>; r = q - of_int f
      in if r < 1 / 2 then f
         else if 1 / 2 < r then f + 1
         else if even f then f else f + 1)"

fun bit_length :: "nat \<Rightarrow> nat" where
  "bit_length n = (if n = 0 then 0 else Suc (bit_length (n div 2)))"

declare bit_length.simps [simp del]

text \<open>The exponent \<open>e\<close> of a number other than 0: \<open>2\<^sup>e \<le> |x| < 2\<^sup>e\<^sup>+\<^sup>1\<close>.\<close>

definition binary_exponent :: "real \<Rightarrow> int" where
  "binary_exponent x =
     (if 1 \<le> \<bar>x\<bar> then int (bit_length (nat \<lfloor>\<bar>x\<bar>\<rfloor>)) - 1
      else - int (bit_length (nat (\<lceil>1 / \<bar>x\<bar>\<rceil> - 1))))"

definition pow2 :: "int \<Rightarrow> real" where
  "pow2 u = (if 0 \<le> u then 2 ^ nat u else 1 / 2 ^ nat (- u))"

definition fl64 :: "real \<Rightarrow> real" where
  "fl64 x =
     (if x = 0 then 0
      else (let u = max (binary_exponent x) (- 1022) - 52
            in of_int (round_half_even (x / pow2 u)) * pow2 u))"

definition fadd :: "real \<Rightarrow> real \<Rightarrow> real" where
  "fadd a b = fl64 (a + b)"

definition fdiv :: "real \<Rightarrow> real \<Rightarrow> real" where
  "fdiv a b = fl64 (a / b)"

section \<open>The audio codec (services/geminiService)\<close>

subsection \<open>Typed arrays\<close>

text \<open>
  Storing a number into an \<open>Int16Array\<close> truncates it towards zero and keeps the low 16
  bits. A \<open>Uint8Array\<close> over the same buffer sees each element as two octets, the low
  one first (typed arrays use the byte order of the platform, little-endian wherever
  browsers run). An \<open>Int16Array\<close> over a buffer of octets pairs them up the same way and
  is refused on an odd byte length.
\<close>

definition js_truncate :: "real \<Rightarrow> int" where
  "js_truncate v = (if v < 0 then \<lceil>v\<rceil> else \<lfloor>v\<rfloor>)"

definition ToInt16 :: "real \<Rightarrow> 16 word" where
  "ToInt16 v = word_of_int (js_truncate v)"

definition int16_octets :: "16 word \<Rightarrow> 8 word list" where
  "int16_octets w = [ucast w, ucast (drop_bit 8 w)]"

definition Uint8Array_of_int16 :: "16 word list \<Rightarrow> 8 word list" where
  "Uint8Array_of_int16 ws = concat (map int16_octets ws)"

fun int16_elements :: "8 word list \<Rightarrow> 16 word list" where
  "int16_elements (lo # hi # r) = (ucast lo OR push_bit 8 (ucast hi)) # int16_elements r"
| "int16_elements [lo] = []"
| "int16_elements [] = []"

definition Int16Array_of_buffer :: "8 word list \<Rightarrow> js_error + 16 word list" where
  "Int16Array_of_buffer bs =
     (if odd (length bs) then Inl RangeError else Inr (int16_elements bs))"

subsection \<open>encodeAudioChunk\<close>

text \<open>
  The loop body: \<open>s = Math.max(-1, Math.min(1, data[i]))\<close>, then
  \<open>int16[i] = s < 0 ? s * 0x8000 : s * 0x7fff\<close>.
\<close>

definition clamp_sample :: "real \<Rightarrow> real" where
  "clamp_sample x = max (- 1) (min 1 x)"

definition scale_sample :: "real \<Rightarrow> real" where
  "scale_sample x = (let s = clamp_sample x in if s < 0 then s * 32768 else s * 32767)"

definition encodeAudioChunk :: "real list \<Rightarrow> js_error + jsstring" where
  "encodeAudioChunk data =
     (let int16 = map (\<lambda>x. ToInt16 (scale_sample x)) data;
          bytes = Uint8Array_of_int16 int16;
          binary = map ucast bytes
      in btoa binary)"

subsection \<open>decodeBase64Audio and decodeAudioToBuffer\<close>

definition decodeBase64Audio :: "jsstring \<Rightarrow> js_error + 8 word list" where
  "decodeBase64Audio base64 =
     (case atob base64 of
        Inl e \<Rightarrow> Inl e
      | Inr binaryString \<Rightarrow> Inr (map ucast binaryString))"

record AudioBuffer =
  channelData :: "real list"
  sampleRate :: nat

text \<open>
  \<open>buffer.duration\<close>: the number of frames divided by the sample rate, as a
  double-precision quotient.
\<close>

definition duration :: "AudioBuffer \<Rightarrow> real" where
  "duration b = fdiv (real (length (channelData b))) (real (sampleRate b))"

text \<open>\<open>createBuffer(1, length, rate)\<close>: a silent buffer; zero frames are refused.\<close>

definition createBuffer :: "nat \<Rightarrow> nat \<Rightarrow> js_error + AudioBuffer" where
  "createBuffer n rate =
     (if n = 0 then Inl NotSupportedError
      else Inr \<lparr>channelData = replicate n 0, sampleRate = rate\<rparr>)"

definition decodeAudioToBuffer :: "8 word list \<Rightarrow> js_error + AudioBuffer" where
  "decodeAudioToBuffer data =
     (case Int16Array_of_buffer data of
        Inl e \<Rightarrow> Inl e
      | Inr dataInt16 \<Rightarrow>
          (case createBuffer (length dataInt16) 24000 of
             Inl e \<Rightarrow> Inl e
           | Inr buffer \<Rightarrow>
               Inr (buffer\<lparr>channelData := map (\<lambda>w. real_of_int (sint w) / 32768) dataInt16\<rparr>)))"

text \<open>The call chain of the message callback: payload to playable buffer.\<close>

definition decode_payload :: "jsstring \<Rightarrow> js_error + AudioBuffer" where
  "decode_payload audioData =
     (case decodeBase64Audio audioData of
        Inl e \<Rightarrow> Inl e
      | Inr bytes \<Rightarrow> decodeAudioToBuffer bytes)"

text \<open>
  Encoding followed by the two decoding steps, as a test of the codec would compose them:
  \<open>decodeAudioToBuffer(decodeBase64Audio(encodeAudioChunk(x)))\<close>.
\<close>

definition roundtrip :: "real list \<Rightarrow> js_error + AudioBuffer" where
  "roundtrip x =
     (case encodeAudioChunk x of
        Inl e \<Rightarrow> Inl e
      | Inr base64 \<Rightarrow> decode_payload base64)"

subsection \<open>The encoder as the specification words it\<close>

text \<open>
  The specification's encoder, written from its sentence alone: scale a sample by 32768
  when negative and by 32767 otherwise, clamp to the 16-bit range, lay the integers out
  as little-endian octets, and base64-encode the octets. The sentence does not say how
  a scaled sample becomes an integer; the fraction is dropped here. It is compared with
  \<open>encodeAudioChunk\<close> below.
\<close>

definition spec_sample_int16 :: "real \<Rightarrow> int" where
  "spec_sample_int16 x =
     max (- 32768) (min 32767 (js_truncate (if x < 0 then x * 32768 else x * 32767)))"

definition spec_le_octets :: "int \<Rightarrow> nat list" where
  "spec_le_octets k = [nat (k mod 256), nat ((k div 256) mod 256)]"

definition spec_base64 :: "nat list \<Rightarrow> jsstring" where
  "spec_base64 bs =
     map b64_char (b64_sextets bs) @ replicate ((3 - length bs mod 3) mod 3) b64_pad"

definition spec_encode :: "real list \<Rightarrow> jsstring" where
  "spec_encode x = spec_base64 (concat (map (\<lambda>s. spec_le_octets (spec_sample_int16 s)) x))"

section \<open>The live voice session (components/VoiceMode)\<close>

subsection \<open>State of a component instance\<close>

datatype Status = idle | listening | speaking | thinking

datatype Role = role_user | role_model

record TranscriptLine =
  line_text :: jsstring
  role :: Role

record Transcription =
  user :: jsstring
  model :: jsstring

record AudioContext =
  ctx_sampleRate :: nat
  ctx_closed :: bool

record Session =
  session_closed :: bool

text \<open>
  An \<open>AudioBufferSourceNode\<close> after \<open>start(when)\<close>: it is scheduled or playing until its
  playback finishes by itself or \<open>stop()\<close> ends it.
\<close>

datatype PlayState = Scheduled | Finished | Stopped

record AudioBufferSourceNode =
  buffer :: AudioBuffer
  startWhen :: real
  playState :: PlayState

text \<open>
  The hooks of the component. The source nodes are objects shared between the audio
  graph and the set \<open>audioSourcesRef\<close>: \<open>sourceNodes\<close> is the store of every node created
  so far, a node's reference is its position in the store, and the set holds references
  in insertion order, which is the order \<open>forEach\<close> visits them in. A clock value
  \<open>outputCtx.currentTime\<close> is a double-precision number, never negative and never
  running backwards; the model takes any real number for it.
\<close>

record VoiceState =
  isLive :: bool
  status :: Status
  transcripts :: "TranscriptLine list"
  sessionRef :: "Session option"
  inputCtxRef :: "AudioContext option"
  outputCtxRef :: "AudioContext option"
  nextStartTimeRef :: real
  currentTranscriptionRef :: Transcription
  audioSourcesRef :: "nat list"
  sourceNodes :: "AudioBufferSourceNode list"

definition initial_state :: VoiceState where
  "initial_state =
     \<lparr>isLive = False, status = idle, transcripts = [], sessionRef = None,
      inputCtxRef = None, outputCtxRef = None, nextStartTimeRef = 0,
      currentTranscriptionRef = \<lparr>user = [], model = []\<rparr>,
      audioSourcesRef = [], sourceNodes = []\<rparr>"

subsection \<open>Statements that may throw\<close>

definition and_then :: "js_error + 'a \<Rightarrow> ('a \<Rightarrow> js_error + 'b) \<Rightarrow> js_error + 'b" where
  "and_then r f = (case r of Inl e \<Rightarrow> Inl e | Inr v \<Rightarrow> f v)"

text \<open>\<open>try { f } catch (e) {}\<close> for a statement that changes nothing when it throws.\<close>

definition try_catch :: "(VoiceState \<Rightarrow> js_error + VoiceState) \<Rightarrow> VoiceState \<Rightarrow> js_error + VoiceState" where
  "try_catch f s = (case f s of Inl e \<Rightarrow> Inr s | Inr s' \<Rightarrow> Inr s')"

text \<open>\<open>Set.prototype.forEach\<close>: an exception leaving the callback ends the iteration.\<close>

fun forEach :: "nat list \<Rightarrow> (nat \<Rightarrow> VoiceState \<Rightarrow> js_error + VoiceState) \<Rightarrow> VoiceState \<Rightarrow> js_error + VoiceState" where
  "forEach [] f s = Inr s"
| "forEach (x # xs) f s = (case f x s of Inl e \<Rightarrow> Inl e | Inr s' \<Rightarrow> forEach xs f s')"

text \<open>
  \<open>s.stop()\<close> on the node behind a reference. Stopping a node whose playback has already
  finished is the \<open>PlaybackStopError\<close> of the specification; any other started node is
  stopped.
\<close>

definition source_stop :: "nat \<Rightarrow> VoiceState \<Rightarrow> js_error + VoiceState" where
  "source_stop i s =
     (if i < length (sourceNodes s) then
        (if playState (sourceNodes s ! i) = Finished then Inl PlaybackStopError
         else Inr (s\<lparr>sourceNodes := (sourceNodes s)[i := (sourceNodes s ! i)\<lparr>playState := Stopped\<rparr>]\<rparr>))
      else Inr s)"

text \<open>\<open>audioSourcesRef.current.forEach(s => { try { s.stop(); } catch (e) {} })\<close>\<close>

definition stop_all_sources :: "VoiceState \<Rightarrow> js_error + VoiceState" where
  "stop_all_sources s = forEach (audioSourcesRef s) (\<lambda>i. try_catch (source_stop i)) s"

definition set_add :: "nat \<Rightarrow> nat list \<Rightarrow> nat list" where
  "set_add x xs = (if x \<in> set xs then xs else xs @ [x])"

definition set_delete :: "nat \<Rightarrow> nat list \<Rightarrow> nat list" where
  "set_delete x xs = removeAll x xs"

subsection \<open>The capture callback\<close>

record Media =
  data :: jsstring
  mimeType :: string

datatype Effect =
    Encoded "real list"     \<comment> \<open>a call of \<open>encodeAudioChunk\<close>\<close>
  | RealtimeInput Media     \<comment> \<open>a call of \<open>sendRealtimeInput\<close> on the session\<close>
  | Thrown js_error

text \<open>
  \<open>onaudioprocess\<close> changes no hook; what it does is the list of calls it makes, in order.
\<close>

definition onaudioprocess :: "VoiceState \<Rightarrow> real list \<Rightarrow> Effect list" where
  "onaudioprocess s inputData =
     (case sessionRef s of
        None \<Rightarrow> []
      | Some session \<Rightarrow>
          (case encodeAudioChunk inputData of
             Inl e \<Rightarrow> [Encoded inputData, Thrown e]
           | Inr base64 \<Rightarrow>
               [Encoded inputData,
                RealtimeInput \<lparr>data = base64, mimeType = ''audio/pcm;rate=16000''\<rparr>]))"

subsection \<open>The message callback\<close>

text \<open>
  A server message, reduced to the five signals the callback reads. The \<open>text\<close> of a
  transcription is optional in the SDK's type; \<open>+=\<close> appends the string \<open>undefined\<close> for a
  missing one.
\<close>

record LiveServerMessage =
  inputTranscription :: "jsstring option option"
  outputTranscription :: "jsstring option option"
  turnComplete :: bool
  audioData :: "jsstring option"
  interrupted :: bool

definition append_text :: "jsstring \<Rightarrow> jsstring option \<Rightarrow> jsstring" where
  "append_text acc t = acc @ (case t of None \<Rightarrow> of_ascii ''undefined'' | Some s \<Rightarrow> s)"

text \<open>\<open>String.prototype.trim\<close> removes white space and line terminators at both ends.\<close>

definition is_js_whitespace :: "16 word \<Rightarrow> bool" where
  "is_js_whitespace c =
     (c = 0x9 \<or> c = 0xA \<or> c = 0xB \<or> c = 0xC \<or> c = 0xD \<or> c = 0x20 \<or> c = 0xA0
      \<or> c = 0x1680 \<or> (0x2000 \<le> c \<and> c \<le> 0x200A) \<or> c = 0x2028 \<or> c = 0x2029
      \<or> c = 0x202F \<or> c = 0x205F \<or> c = 0x3000 \<or> c = 0xFEFF)"

definition js_trim :: "jsstring \<Rightarrow> jsstring" where
  "js_trim s = rev (dropWhile is_js_whitespace (rev (dropWhile is_js_whitespace s)))"

text \<open>1. Handle Transcriptions.\<close>

definition handle_transcriptions :: "LiveServerMessage \<Rightarrow> VoiceState \<Rightarrow> VoiceState" where
  "handle_transcriptions msg s =
     (let s1 = (case inputTranscription msg of
                  None \<Rightarrow> s
                | Some t \<Rightarrow>
                    s\<lparr>currentTranscriptionRef :=
                        (currentTranscriptionRef s)
                          \<lparr>user := append_text (user (currentTranscriptionRef s)) t\<rparr>,
                      status := thinking\<rparr>)
      in (case outputTranscription msg of
            None \<Rightarrow> s1
          | Some t \<Rightarrow>
              s1\<lparr>currentTranscriptionRef :=
                   (currentTranscriptionRef s1)
                     \<lparr>model := append_text (model (currentTranscriptionRef s1)) t\<rparr>,
                 status := speaking\<rparr>))"

definition handle_turnComplete :: "LiveServerMessage \<Rightarrow> VoiceState \<Rightarrow> VoiceState" where
  "handle_turnComplete msg s =
     (if turnComplete msg then
        (let userText = js_trim (user (currentTranscriptionRef s));
             modelText = js_trim (model (currentTranscriptionRef s));
             s1 = (if userText \<noteq> [] \<or> modelText \<noteq> [] then
                     s\<lparr>transcripts :=
                         transcripts s
                         @ (if userText \<noteq> [] then [\<lparr>line_text = userText, role = role_user\<rparr>] else [])
                         @ (if modelText \<noteq> [] then [\<lparr>line_text = modelText, role = role_model\<rparr>] else [])\<rparr>
                   else s)
         in s1\<lparr>currentTranscriptionRef := \<lparr>user = [], model = []\<rparr>, status := listening\<rparr>)
      else s)"

text \<open>
  2. Handle Audio Playback. \<open>now\<close> is \<open>outputCtx.currentTime\<close>. A payload that is missing
  or the empty string is skipped; one that does not decode rejects the callback.
  \<open>Math.max\<close> is exact; \<open>startTime + buffer.duration\<close> is a double-precision sum.
\<close>

definition handle_audio :: "real \<Rightarrow> LiveServerMessage \<Rightarrow> VoiceState \<Rightarrow> js_error + VoiceState" where
  "handle_audio now msg s =
     (case audioData msg of
        None \<Rightarrow> Inr s
      | Some d \<Rightarrow>
          if d = [] then Inr s
          else
            (case decode_payload d of
               Inl e \<Rightarrow> Inl e
             | Inr buf \<Rightarrow>
                 (let source = length (sourceNodes s);
                      startTime = max now (nextStartTimeRef s)
                  in Inr (s\<lparr>sourceNodes :=
                              sourceNodes s
                              @ [\<lparr>buffer = buf, startWhen = startTime, playState = Scheduled\<rparr>],
                            nextStartTimeRef := fadd startTime (duration buf),
                            audioSourcesRef := set_add source (audioSourcesRef s)\<rparr>))))"

text \<open>
  The audio thread reaches the end of a node's buffer: the node has finished. Its
  \<open>ended\<close> event is queued and runs \<open>source.onended\<close> later, so for a while a finished node
  is still in the set.
\<close>

definition playback_finished :: "nat \<Rightarrow> VoiceState \<Rightarrow> VoiceState" where
  "playback_finished i s =
     (if i < length (sourceNodes s) \<and> playState (sourceNodes s ! i) = Scheduled
      then s\<lparr>sourceNodes := (sourceNodes s)[i := (sourceNodes s ! i)\<lparr>playState := Finished\<rparr>]\<rparr>
      else s)"

text \<open>\<open>source.onended\<close>, the handler of the \<open>ended\<close> event.\<close>

definition onended :: "nat \<Rightarrow> VoiceState \<Rightarrow> VoiceState" where
  "onended source s = s\<lparr>audioSourcesRef := set_delete source (audioSourcesRef s)\<rparr>"

text \<open>3. Handle Interruptions.\<close>

definition handle_interrupted :: "real \<Rightarrow> LiveServerMessage \<Rightarrow> VoiceState \<Rightarrow> js_error + VoiceState" where
  "handle_interrupted now msg s =
     (if interrupted msg then
        and_then (stop_all_sources s)
          (\<lambda>s1. Inr (s1\<lparr>audioSourcesRef := [], nextStartTimeRef := now, status := listening\<rparr>))
      else Inr s)"

text \<open>
  The callback returns a promise. The result is the state it leaves and the error it
  rejects with, if any: what ran before a throw stays done. The callback is taken as
  one step: while it awaits the decoded buffer no other callback runs in between.
\<close>

definition onmessage :: "real \<Rightarrow> LiveServerMessage \<Rightarrow> VoiceState \<Rightarrow> VoiceState \<times> js_error option" where
  "onmessage now msg s =
     (let s1 = handle_transcriptions msg s;
          s2 = handle_turnComplete msg s1
      in (case handle_audio now msg s2 of
            Inl e \<Rightarrow> (s2, Some e)
          | Inr s3 \<Rightarrow>
              (case handle_interrupted now msg s3 of
                 Inl e \<Rightarrow> (s3, Some e)
               | Inr s4 \<Rightarrow> (s4, None))))"

subsection \<open>stopLive\<close>

definition session_close :: "VoiceState \<Rightarrow> js_error + VoiceState" where
  "session_close s = Inr (s\<lparr>sessionRef := map_option (\<lambda>c. c\<lparr>session_closed := True\<rparr>) (sessionRef s)\<rparr>)"

text \<open>
  \<open>close()\<close> on an audio context throws nothing: it returns a promise, rejected when the
  context is closed already. The result is the context afterwards and the outcome of
  the promise. stopLive drops the promise.
\<close>

definition ctx_close :: "AudioContext \<Rightarrow> AudioContext \<times> js_error option" where
  "ctx_close c =
     (if ctx_closed c then (c, Some InvalidStateError) else (c\<lparr>ctx_closed := True\<rparr>, None))"

definition stopLive :: "VoiceState \<Rightarrow> js_error + VoiceState" where
  "stopLive s =
     and_then (stop_all_sources s) (\<lambda>s1.
     and_then (let s2 = s1\<lparr>audioSourcesRef := []\<rparr> in
               case sessionRef s2 of
                 None \<Rightarrow> Inr s2
               | Some session \<Rightarrow>
                   and_then (try_catch session_close s2) (\<lambda>s3. Inr (s3\<lparr>sessionRef := None\<rparr>))) (\<lambda>s4.
     Inr (s4\<lparr>inputCtxRef := map_option (\<lambda>c. fst (ctx_close c)) (inputCtxRef s4),
             outputCtxRef := map_option (\<lambda>c. fst (ctx_close c)) (outputCtxRef s4),
             isLive := False,
             status := idle,
             nextStartTimeRef := 0\<rparr>)))"

subsection \<open>Runs of the message callback\<close>

text \<open>
  Messages are handled one after the other, each at the clock value it is given. The
  trace lists the source nodes in the order they were scheduled, each with the clock
  value of its message and with the value of \<open>nextStartTimeRef\<close> just before.
\<close>

record Scheduling =
  clock :: real
  pending :: real
  node :: AudioBufferSourceNode

fun playback_trace :: "(real \<times> LiveServerMessage) list \<Rightarrow> VoiceState \<Rightarrow> Scheduling list" where
  "playback_trace [] s = []"
| "playback_trace ((now, msg) # evs) s =
     (let s' = fst (onmessage now msg s)
      in map (\<lambda>n. \<lparr>clock = now, pending = nextStartTimeRef s, node = n\<rparr>)
             (drop (length (sourceNodes s)) (sourceNodes s'))
         @ playback_trace evs s')"

text \<open>
  The buffer that the audio step of the callback decodes from a message, if it decodes
  one: none for a missing or empty payload and for a payload that is rejected.
\<close>

definition decoded_buffer :: "LiveServerMessage \<Rightarrow> AudioBuffer option" where
  "decoded_buffer msg =
     (case audioData msg of
        None \<Rightarrow> None
      | Some d \<Rightarrow> if d = [] then None
                  else (case decode_payload d of Inl e \<Rightarrow> None | Inr buf \<Rightarrow> Some buf))"

text \<open>The payload on which the audio step throws, so that the callback rejects.\<close>

definition payload_rejected :: "LiveServerMessage \<Rightarrow> bool" where
  "payload_rejected msg =
     (case audioData msg of
        None \<Rightarrow> False
      | Some d \<Rightarrow> d \<noteq> [] \<and> (case decode_payload d of Inl e \<Rightarrow> True | Inr buf \<Rightarrow> False))"

fun run_messages :: "(real \<times> LiveServerMessage) list \<Rightarrow> VoiceState \<Rightarrow> VoiceState" where
  "run_messages [] s = s"
| "run_messages ((now, msg) # evs) s = run_messages evs (fst (onmessage now msg s))"

definition audio_message :: "jsstring \<Rightarrow> LiveServerMessage" where
  "audio_message d =
     \<lparr>inputTranscription = None, outputTranscription = None, turnComplete = False,
      audioData = Some d, interrupted = False\<rparr>"

definition interruption_message :: "jsstring option \<Rightarrow> LiveServerMessage" where
  "interruption_message d =
     \<lparr>inputTranscription = None, outputTranscription = None, turnComplete = False,
      audioData = d, interrupted = True\<rparr>"

definition turn_complete_message :: LiveServerMessage where
  "turn_complete_message =
     \<lparr>inputTranscription = None, outputTranscription = None, turnComplete = True,
      audioData = None, interrupted = False\<rparr>"

subsection \<open>The node store after a round of \<open>stop()\<close> calls\<close>

text \<open>
  The closed form of \<open>stop_all_sources\<close>, proved below: every node whose reference is in
  \<open>ids\<close> and whose playback has not finished by itself is stopped, the others are as
  they were.
\<close>

definition after_stop :: "nat list \<Rightarrow> AudioBufferSourceNode list \<Rightarrow> AudioBufferSourceNode list" where
  "after_stop ids ns =
     map (\<lambda>i. if i \<in> set ids \<and> playState (ns ! i) \<noteq> Finished
              then (ns ! i)\<lparr>playState := Stopped\<rparr> else ns ! i) [0..<length ns]"

subsection \<open>A state in the middle of a session\<close>

text \<open>
  Three frames of silence, and a live session that has played one buffer to its end
  (its \<open>ended\<close> event has not run yet) and holds a second one scheduled.
\<close>

definition silence :: AudioBuffer where
  "silence = \<lparr>channelData = [0, 0, 0], sampleRate = 24000\<rparr>"

definition busy_state :: VoiceState where
  "busy_state =
     \<lparr>isLive = True, status = speaking,
      transcripts = [\<lparr>line_text = of_ascii ''Hola'', role = role_model\<rparr>],
      sessionRef = Some \<lparr>session_closed = False\<rparr>,
      inputCtxRef = Some \<lparr>ctx_sampleRate = 16000, ctx_closed = False\<rparr>,
      outputCtxRef = Some \<lparr>ctx_sampleRate = 24000, ctx_closed = False\<rparr>,
      nextStartTimeRef = 5,
      currentTranscriptionRef = \<lparr>user = of_ascii ''hi'', model = []\<rparr>,
      audioSourcesRef = [0, 1],
      sourceNodes = [\<lparr>buffer = silence, startWhen = 0, playState = Finished\<rparr>,
                     \<lparr>buffer = silence, startWhen = 1, playState = Scheduled\<rparr>]\<rparr>"

section \<open>Properties of the double-precision rounding\<close>

text \<open>
  Rounding moves a number by at most half a unit in the last place: by at most
  \<open>2\<^sup>-\<^sup>5\<^sup>3\<close> of its magnitude, and by at most \<open>2\<^sup>-\<^sup>1\<^sup>0\<^sup>7\<^sup>5\<close> in the subnormal range.
\<close>

lemma round_half_even_error: "\<bar>of_int (round_half_even q) - q\<bar> \<le> 1 / 2"
  unfolding round_half_even_def Let_def by (auto simp: abs_if) linarith+

lemma bit_length_bounds:
  "0 < n \<Longrightarrow> 2 ^ (bit_length n - 1) \<le> n \<and> n < 2 ^ bit_length n"
proof (induction n rule: bit_length.induct)
  case (1 n)
  show ?case
  proof (cases "n div 2 = 0")
    case True
    then have "n = 1" using 1(2) by presburger
    then show ?thesis by (simp add: bit_length.simps)
  next
    case False
    then have ih: "2 ^ (bit_length (n div 2) - 1) \<le> n div 2" "n div 2 < 2 ^ bit_length (n div 2)"
      using 1 by auto
    have k: "0 < bit_length (n div 2)" using False by (simp add: bit_length.simps)
    have bl: "bit_length n = Suc (bit_length (n div 2))" using 1(2) by (simp add: bit_length.simps)
    have half: "2 * (n div 2) \<le> n" "n < 2 * (n div 2) + 2" by presburger+
    have "(2 :: nat) ^ bit_length (n div 2) = 2 * 2 ^ (bit_length (n div 2) - 1)"
      using k by (cases "bit_length (n div 2)") auto
    then have lo: "2 ^ bit_length (n div 2) \<le> n" using ih(1) half(1) by linarith
    have hi: "n < 2 * 2 ^ bit_length (n div 2)" using ih(2) half(2) by linarith
    show ?thesis using lo hi by (simp add: bl)
  qed
qed

lemma pow2_powi: "pow2 u = 2 powi u"
  by (simp add: pow2_def power_int_def field_simps)

lemma pow2_pos: "0 < pow2 u"
  by (simp add: pow2_def)

lemma pow2_binary_exponent: "x \<noteq> 0 \<Longrightarrow> pow2 (binary_exponent x) \<le> \<bar>x\<bar>"
proof (cases "1 \<le> \<bar>x\<bar>")
  case True
  let ?n = "nat \<lfloor>\<bar>x\<bar>\<rfloor>"
  have n: "0 < ?n" using True by simp
  have "real (2 ^ (bit_length ?n - 1)) \<le> real ?n"
    using conjunct1[OF bit_length_bounds[OF n]] by (rule of_nat_mono)
  also have "\<dots> \<le> \<bar>x\<bar>" using True by simp
  finally have "2 ^ (bit_length ?n - 1) \<le> \<bar>x\<bar>" by simp
  moreover have "0 < bit_length ?n" using n by (simp add: bit_length.simps)
  then have "nat (int (bit_length ?n) - 1) = bit_length ?n - 1" by simp
  ultimately show ?thesis using True by (simp add: binary_exponent_def pow2_def)
next
  case False
  assume x: "x \<noteq> 0"
  define m where "m = nat (\<lceil>1 / \<bar>x\<bar>\<rceil> - 1)"
  have "1 < 1 / \<bar>x\<bar>" using False x by simp
  then have c: "2 \<le> \<lceil>1 / \<bar>x\<bar>\<rceil>" by linarith
  have m: "0 < m" and cm: "\<lceil>1 / \<bar>x\<bar>\<rceil> = int m + 1"
    unfolding m_def using c by linarith+
  have "m < 2 ^ bit_length m" using bit_length_bounds[OF m] by simp
  then have "m + 1 \<le> 2 ^ bit_length m" by simp
  then have "int (m + 1) \<le> int (2 ^ bit_length m)" by (simp only: of_nat_le_iff)
  then have "\<lceil>1 / \<bar>x\<bar>\<rceil> \<le> 2 ^ bit_length m" using cm by simp
  then have "1 / \<bar>x\<bar> \<le> of_int (2 ^ bit_length m)" by (simp only: ceiling_le_iff)
  then have "1 / \<bar>x\<bar> \<le> 2 ^ bit_length m" by simp
  then have "1 / 2 ^ bit_length m \<le> \<bar>x\<bar>" using x
    by (simp add: field_simps)
  moreover have "pow2 (binary_exponent x) = 1 / 2 ^ bit_length m"
    using False by (simp add: binary_exponent_def pow2_def m_def)
  ultimately show ?thesis by simp
qed

lemma fl64_error: "\<bar>fl64 x - x\<bar> \<le> max (\<bar>x\<bar> / 2 ^ 53) (1 / 2 ^ 1075)"
proof (cases "x = 0")
  case True
  then show ?thesis by (simp add: fl64_def)
next
  case False
  define u where "u = max (binary_exponent x) (- 1022) - 52"
  define p where "p = pow2 u"
  have p: "0 < p" by (simp add: p_def pow2_pos)
  have "fl64 x - x = (of_int (round_half_even (x / p)) - x / p) * p"
    using False p by (simp add: fl64_def Let_def u_def p_def field_simps)
  then have "\<bar>fl64 x - x\<bar> = \<bar>of_int (round_half_even (x / p)) - x / p\<bar> * p"
    using p by (simp add: abs_mult)
  also have "\<dots> \<le> 1 / 2 * p"
    using round_half_even_error[of "x / p"] p by (intro mult_right_mono) simp_all
  finally have e: "\<bar>fl64 x - x\<bar> \<le> p / 2" by simp
  show ?thesis
  proof (cases "- 1022 \<le> binary_exponent x")
    case True
    then have "u = binary_exponent x - 53 + 1" by (simp add: u_def)
    then have "p = pow2 (binary_exponent x) * 2 / 2 ^ 53"
      by (simp add: p_def pow2_powi power_int_diff power_int_add)
    then have "p / 2 \<le> \<bar>x\<bar> / 2 ^ 53"
      using pow2_binary_exponent[OF False] by (simp add: field_simps)
    then show ?thesis using e by linarith
  next
    case False
    then have "u = - 1074" by (simp add: u_def)
    then have "p / 2 = 1 / 2 ^ 1075" by (simp add: p_def pow2_def)
    then show ?thesis using e by linarith
  qed
qed

lemma fadd_lower:
  "a + b - max (\<bar>a + b\<bar> / 2 ^ 53) (1 / 2 ^ 1075) \<le> fadd a b"
  using fl64_error[of "a + b"] unfolding fadd_def by linarith

section \<open>Properties of the base64 functions\<close>

lemma b64_index_char: "i < 64 \<Longrightarrow> b64_index (b64_char i) = Some i"
  by (auto simp: b64_index_def b64_char_def unat_of_nat Let_def)

lemma b64_sextets_bound:
  "\<forall>a\<in>set bs. a < 256 \<Longrightarrow> \<forall>v\<in>set (b64_sextets bs). v < 64"
  by (induction bs rule: b64_sextets.induct) auto

lemma b64_octets_sextets:
  "\<forall>a\<in>set bs. a < 256 \<Longrightarrow> b64_octets (b64_sextets bs) = bs"
  by (induction bs rule: b64_sextets.induct) auto

lemma mod3_step: "Suc (Suc (Suc n)) mod 3 = n mod 3"
proof -
  have "Suc (Suc (Suc n)) = n + 3" by simp
  then show ?thesis by (simp only: mod_add_self2)
qed

lemma mod4_step: "Suc (Suc (Suc (Suc n))) mod 4 = n mod 4"
proof -
  have "Suc (Suc (Suc (Suc n))) = n + 4" by simp
  then show ?thesis by (simp only: mod_add_self2)
qed

lemma length_b64_sextets_padded:
  "(length (b64_sextets bs) + (3 - length bs mod 3) mod 3) mod 4 = 0"
  by (induction bs rule: b64_sextets.induct) (simp_all add: mod3_step mod4_step)

lemma length_b64_sextets_mod4:
  "length (b64_sextets bs) mod 4 \<noteq> Suc 0"
  by (induction bs rule: b64_sextets.induct) (simp_all add: mod4_step)

lemma b64_char_not_pad: "i < 64 \<Longrightarrow> b64_char i \<noteq> b64_pad"
  using b64_index_char[of i] by (auto simp: b64_index_def b64_pad_def)

lemma b64_char_not_ws: "i < 64 \<Longrightarrow> \<not> is_ascii_whitespace (b64_char i)"
  using b64_index_char[of i] by (auto simp: b64_index_def is_ascii_whitespace_def)

lemma those_index_char:
  "\<forall>v\<in>set vs. v < 64 \<Longrightarrow> those (map b64_index (map b64_char vs)) = Some vs"
  by (induction vs) (simp_all add: b64_index_char)

lemma strip_padding_encoded:
  assumes vs: "\<forall>v\<in>set vs. v < 64" and k: "k \<le> 2" and len: "(length vs + k) mod 4 = 0"
  shows "strip_padding (map b64_char vs @ replicate k b64_pad) = map b64_char vs"
proof -
  have nopad: "vs \<noteq> [] \<Longrightarrow> last (map b64_char vs) \<noteq> b64_pad"
    using vs by (simp add: last_map b64_char_not_pad)
  consider "k = 0" | "k = 1" | "k = 2" using k by linarith
  then show ?thesis
  proof cases
    case 1
    then show ?thesis using nopad len by (cases "vs = []") (auto simp: strip_padding_def)
  next
    case 2
    then have "vs \<noteq> []" using len by auto
    then show ?thesis using 2 nopad len by (auto simp: strip_padding_def butlast_append)
  next
    case 3
    then have r: "replicate k b64_pad = [b64_pad, b64_pad]" by (simp add: numeral_2_eq_2)
    show ?thesis using len 3 unfolding r
      by (auto simp: strip_padding_def butlast_append)
  qed
qed

lemma filter_ws_encoded:
  assumes "\<forall>v\<in>set vs. v < 64"
  shows "filter (\<lambda>c. \<not> is_ascii_whitespace c) (map b64_char vs @ replicate k b64_pad)
         = map b64_char vs @ replicate k b64_pad"
proof -
  have "\<not> is_ascii_whitespace b64_pad" by (simp add: is_ascii_whitespace_def b64_pad_def)
  then show ?thesis using assms by (auto simp: filter_id_conv b64_char_not_ws)
qed

lemma atob_btoa:
  assumes "\<not> list_ex (\<lambda>c. 255 < c) s"
  shows "\<exists>e. btoa s = Inr e \<and> atob e = Inr s"
proof -
  let ?bs = "map unat s"
  let ?vs = "b64_sextets ?bs"
  let ?k = "(3 - length s mod 3) mod 3"
  have small: "\<forall>a\<in>set ?bs. a < 256"
    using assms by (auto simp: list_ex_iff word_less_nat_alt not_less word_le_nat_alt)
  have vs: "\<forall>v\<in>set ?vs. v < 64" using small by (rule b64_sextets_bound)
  have k: "?k \<le> 2" by simp
  have len: "(length ?vs + ?k) mod 4 = 0"
    using length_b64_sextets_padded[of "?bs"] by simp
  have len1: "length ?vs mod 4 \<noteq> 1"
    using length_b64_sextets_mod4[of "?bs"] by simp
  have enc: "btoa s = Inr (map b64_char ?vs @ replicate ?k b64_pad)"
    using assms by (simp add: btoa_def)
  have inv: "map of_nat (b64_octets ?vs) = s"
    using small by (simp add: b64_octets_sextets map_idI)
  let ?e = "map b64_char ?vs @ replicate ?k b64_pad"
  have d: "strip_padding (filter (\<lambda>c. \<not> is_ascii_whitespace c) ?e) = map b64_char ?vs"
    unfolding filter_ws_encoded[OF vs] by (rule strip_padding_encoded[OF vs k len])
  have "atob ?e = Inr s"
    unfolding atob_def d Let_def those_index_char[OF vs] using len1 inv by simp
  with enc show ?thesis by simp
qed

section \<open>Properties of the codec\<close>

lemma unat_8_less: "unat (b :: 8 word) < 256"
  using unsigned_less[of b, where 'a=nat] by simp

lemma unat_ucast_8: "unat (ucast (b :: 8 word) :: 16 word) = unat b"
proof -
  have "unat b < 2 ^ 16" using unat_8_less[of b] by simp
  then show ?thesis by (simp add: unsigned_ucast_eq take_bit_nat_eq_self)
qed

lemma fromCharCode_small: "\<not> 255 < (ucast (b :: 8 word) :: 16 word)"
  using unat_8_less[of b] by (simp add: word_less_nat_alt unat_ucast_8)

lemma charCodeAt_fromCharCode: "ucast (ucast (b :: 8 word) :: 16 word) = b"
  by (rule bit_word_eqI) (auto simp: bit_simps)

lemma int16_octets_inverse:
  "ucast (ucast w :: 8 word) OR push_bit 8 (ucast (ucast (drop_bit 8 w) :: 8 word)) = (w :: 16 word)"
  by (rule bit_word_eqI) (auto simp: bit_simps)

lemma int16_elements_octets: "int16_elements (Uint8Array_of_int16 ws) = ws"
  by (induction ws) (simp_all add: Uint8Array_of_int16_def int16_octets_def int16_octets_inverse)

lemma length_Uint8Array_of_int16: "length (Uint8Array_of_int16 ws) = 2 * length ws"
  by (induction ws) (simp_all add: Uint8Array_of_int16_def int16_octets_def)

lemma binary_string_small:
  "\<not> list_ex (\<lambda>c. 255 < c) (map ucast (bytes :: 8 word list) :: 16 word list)"
  by (simp add: list_ex_iff fromCharCode_small)

lemma encode_decodeBase64:
  "\<exists>e. encodeAudioChunk x = Inr e \<and>
       decodeBase64Audio e = Inr (Uint8Array_of_int16 (map (\<lambda>x. ToInt16 (scale_sample x)) x))"
proof -
  let ?bytes = "Uint8Array_of_int16 (map (\<lambda>x. ToInt16 (scale_sample x)) x)"
  let ?binary = "map ucast ?bytes :: 16 word list"
  obtain e where e: "btoa ?binary = Inr e" "atob e = Inr ?binary"
    using atob_btoa[OF binary_string_small[of ?bytes]] by blast
  have "map ucast ?binary = ?bytes"
    by (simp add: charCodeAt_fromCharCode map_idI)
  with e show ?thesis
    by (simp add: encodeAudioChunk_def decodeBase64Audio_def Let_def)
qed

lemma decodeAudioToBuffer_octets:
  "decodeAudioToBuffer (Uint8Array_of_int16 ws) =
     (if ws = [] then Inl NotSupportedError
      else Inr \<lparr>channelData = map (\<lambda>w. real_of_int (sint w) / 32768) ws, sampleRate = 24000\<rparr>)"
  by (simp add: decodeAudioToBuffer_def Int16Array_of_buffer_def length_Uint8Array_of_int16
      int16_elements_octets createBuffer_def)

lemma roundtrip_eq:
  "roundtrip x =
     (if x = [] then Inl NotSupportedError
      else Inr \<lparr>channelData = map (\<lambda>s. real_of_int (sint (ToInt16 (scale_sample s))) / 32768) x,
                sampleRate = 24000\<rparr>)"
proof -
  obtain e where e: "encodeAudioChunk x = Inr e"
    "decodeBase64Audio e = Inr (Uint8Array_of_int16 (map (\<lambda>x. ToInt16 (scale_sample x)) x))"
    using encode_decodeBase64 by blast
  show ?thesis
    by (simp add: roundtrip_def e decode_payload_def decodeAudioToBuffer_octets comp_def)
qed

lemma scale_sample_range: "- 32768 \<le> scale_sample x \<and> scale_sample x \<le> 32767"
  by (simp add: scale_sample_def clamp_sample_def Let_def min_def max_def)

lemma js_truncate_range:
  assumes "- 32768 \<le> v" "v \<le> 32767"
  shows "- 32768 \<le> js_truncate v \<and> js_truncate v \<le> 32767"
  using assms unfolding js_truncate_def by (auto simp: le_floor_iff ceiling_le_iff floor_le_iff le_ceiling_iff)

lemma sint_ToInt16: "- 32768 \<le> v \<Longrightarrow> v \<le> 32767 \<Longrightarrow> sint (ToInt16 v) = js_truncate v"
  using js_truncate_range[of v]
  by (simp add: ToInt16_def sint_sbintrunc' signed_take_bit_int_eq_self)

lemma quantization_error:
  assumes "- 1 \<le> x" "x \<le> 1"
  shows "\<bar>x - real_of_int (js_truncate (scale_sample x)) / 32768\<bar> < 1 / 16384"
proof (cases "x < 0")
  case True
  then have s: "scale_sample x = x * 32768" using assms by (simp add: scale_sample_def clamp_sample_def Let_def min_def max_def)
  have "js_truncate (x * 32768) = \<lceil>x * 32768\<rceil>" using True by (simp add: js_truncate_def mult_less_0_iff)
  moreover have "x * 32768 \<le> real_of_int \<lceil>x * 32768\<rceil>" "real_of_int \<lceil>x * 32768\<rceil> < x * 32768 + 1" by linarith+
  ultimately show ?thesis using assms True unfolding s by linarith
next
  case False
  then have s: "scale_sample x = x * 32767" using assms by (simp add: scale_sample_def clamp_sample_def Let_def min_def max_def)
  have "js_truncate (x * 32767) = \<lfloor>x * 32767\<rfloor>" using False by (simp add: js_truncate_def mult_less_0_iff)
  moreover have "real_of_int \<lfloor>x * 32767\<rfloor> \<le> x * 32767" "x * 32767 - 1 < real_of_int \<lfloor>x * 32767\<rfloor>" by linarith+
  ultimately show ?thesis using assms False unfolding s by linarith
qed

lemma unat_low_octet: "unat (ucast (word_of_int k :: 16 word) :: 8 word) = nat (k mod 256)"
proof -
  have "unat (ucast (word_of_int k :: 16 word) :: 8 word) = nat (take_bit 8 (take_bit 16 k))"
    by (simp add: unsigned_ucast_eq unsigned_of_int nat_take_bit_eq take_bit_nat_eq)
  also have "\<dots> = nat (k mod 256)" by (simp add: take_bit_eq_mod mod_mod_cancel)
  finally show ?thesis .
qed

lemma unat_high_octet:
  "unat (ucast (drop_bit 8 (word_of_int k :: 16 word)) :: 8 word) = nat ((k div 256) mod 256)"
proof -
  have "uint (ucast (drop_bit 8 (word_of_int k :: 16 word)) :: 8 word)
        = take_bit 8 (drop_bit 8 (take_bit 16 k))"
    by (simp add: unsigned_ucast_eq unsigned_drop_bit_eq uint_word_of_int_eq)
  also have "\<dots> = take_bit 8 (drop_bit 8 k)"
    by (simp add: drop_bit_take_bit)
  also have "\<dots> = (k div 256) mod 256"
    by (simp add: take_bit_eq_mod drop_bit_eq_div)
  finally show ?thesis by (simp add: unat_eq_nat_uint)
qed

lemma spec_le_octets_eq: "map unat (int16_octets (word_of_int k)) = spec_le_octets k"
  by (simp add: int16_octets_def spec_le_octets_def unat_low_octet unat_high_octet)

lemma spec_sample_int16_eq: "spec_sample_int16 x = js_truncate (scale_sample x)"
proof -
  consider "x < - 1" | "- 1 \<le> x" "x < 0" | "0 \<le> x" "x \<le> 1" | "1 < x" by linarith
  then show ?thesis
  proof cases
    case 1
    then have "\<lceil>x * 32768\<rceil> \<le> - 32768" by (simp add: ceiling_le_iff)
    with 1 show ?thesis
      by (simp add: spec_sample_int16_def scale_sample_def clamp_sample_def js_truncate_def)
  next
    case 2
    then have "- 32768 \<le> \<lceil>x * 32768\<rceil>" "\<lceil>x * 32768\<rceil> \<le> 0" by (simp_all add: le_ceiling_iff ceiling_le_iff)
    with 2 show ?thesis
      by (simp add: spec_sample_int16_def scale_sample_def clamp_sample_def js_truncate_def mult_less_0_iff)
  next
    case 3
    then have "0 \<le> \<lfloor>x * 32767\<rfloor>" "\<lfloor>x * 32767\<rfloor> \<le> 32767" by (simp_all add: le_floor_iff floor_le_iff)
    with 3 show ?thesis
      by (simp add: spec_sample_int16_def scale_sample_def clamp_sample_def js_truncate_def mult_less_0_iff)
  next
    case 4
    then have "32767 \<le> \<lfloor>x * 32767\<rfloor>" by (simp add: le_floor_iff)
    with 4 show ?thesis
      by (simp add: spec_sample_int16_def scale_sample_def clamp_sample_def js_truncate_def mult_less_0_iff)
  qed
qed

lemma binary_octets:
  "map unat (map ucast (Uint8Array_of_int16 (map (\<lambda>x. ToInt16 (scale_sample x)) x)) :: 16 word list)
   = concat (map (\<lambda>s. spec_le_octets (spec_sample_int16 s)) x)"
  by (induction x)
     (simp_all add: Uint8Array_of_int16_def unat_ucast_8 comp_def ToInt16_def
        spec_sample_int16_eq spec_le_octets_eq[symmetric] int16_octets_def)

lemma encodeAudioChunk_eq_spec: "encodeAudioChunk x = Inr (spec_encode x)"
proof -
  let ?bytes = "Uint8Array_of_int16 (map (\<lambda>x. ToInt16 (scale_sample x)) x)"
  have "length (concat (map (\<lambda>s. spec_le_octets (spec_sample_int16 s)) x)) = length ?bytes"
    unfolding binary_octets[symmetric] by simp
  then show ?thesis
    using binary_string_small[of ?bytes]
    by (simp add: encodeAudioChunk_def Let_def btoa_def spec_encode_def spec_base64_def
        binary_octets del: map_map)
qed

lemma scale_clamp: "scale_sample (clamp_sample x) = scale_sample x"
  by (simp add: scale_sample_def clamp_sample_def)

lemma encode_clamp: "encodeAudioChunk (map clamp_sample x) = encodeAudioChunk x"
  by (simp add: encodeAudioChunk_def comp_def scale_clamp)

lemma decodeBase64Audio_sample: "decodeBase64Audio (of_ascii ''/n8='') = Inr [0xFE, 0x7F]"
  by code_simp

lemma spec_encode_sample: "spec_encode [65535 / 65536] = of_ascii ''/n8=''"
  by code_simp

lemma spec_encode_pair: "spec_encode [1, - 1] = of_ascii ''/38AgA==''"
  by code_simp

lemma signed_ToInt16:
  assumes "- 32768 \<le> v" "v \<le> 32767"
  shows "(signed (ToInt16 v) :: real) = real_of_int (js_truncate v)"
proof -
  have "(signed (ToInt16 v) :: real) = real_of_int (sint (ToInt16 v))" by simp
  then show ?thesis using assms by (simp only: sint_ToInt16)
qed

section \<open>The codec: round trip, refinement of the specified encoder, totality\<close>

text \<open>
  Claim C3, as the specification states it: for samples in \<open>[-1, 1]\<close> the round trip
  through \<open>encodeAudioChunk\<close>, \<open>decodeBase64Audio\<close> and \<open>decodeAudioToBuffer\<close> is within
  \<open>1 / 32768\<close> of the input. It fails: the encoder scales a non-negative sample by 32767
  and truncates, the decoder divides by 32768. The sample \<open>65535 / 65536\<close>, a
  single-precision number, is encoded as 32766 and comes back as \<open>32766 / 32768\<close>, which is
  \<open>3 / 65536\<close> away.
\<close>

theorem roundtrip_bound_counterexample:
  "- 1 \<le> (65535 / 65536 :: real) \<and> (65535 / 65536 :: real) \<le> 1
   \<and> roundtrip [65535 / 65536] = Inr \<lparr>channelData = [16383 / 16384], sampleRate = 24000\<rparr>
   \<and> \<not> \<bar>65535 / 65536 - 16383 / 16384\<bar> \<le> (1 / 32768 :: real)"
  by (simp add: roundtrip_def encodeAudioChunk_eq_spec spec_encode_sample decode_payload_def
      decodeBase64Audio_sample decodeAudioToBuffer_def Int16Array_of_buffer_def createBuffer_def)

text \<open>
  Claim C3, amended: for every sample sequence with each sample in \<open>[-1, 1]\<close> and every
  index \<open>i\<close> of it, the round trip returns a buffer of the same length whose sample \<open>i\<close>
  is less than \<open>2 / 32768 = 1 / 16384\<close> away from the input sample.
\<close>

theorem roundtrip_error_bound:
  assumes "\<forall>s\<in>set x. - 1 \<le> s \<and> s \<le> 1" and "i < length x"
  shows "\<exists>b. roundtrip x = Inr b \<and> length (channelData b) = length x
             \<and> \<bar>x ! i - channelData b ! i\<bar> < 1 / 16384"
proof -
  have ne: "x \<noteq> []" using assms(2) by auto
  have r: "- 1 \<le> x ! i" "x ! i \<le> 1" using assms by auto
  have "(signed (ToInt16 (scale_sample (x ! i))) :: real) = real_of_int (js_truncate (scale_sample (x ! i)))"
    using scale_sample_range[of "x ! i"] by (simp add: signed_ToInt16)
  then show ?thesis
    using quantization_error[OF r] assms(2) ne by (simp add: roundtrip_eq)
qed

theorem roundtrip_error_bound_witness:
  "\<exists>b. roundtrip [65535 / 65536] = Inr b \<and> length (channelData b) = 1
       \<and> \<bar>65535 / 65536 - channelData b ! 0\<bar> < 1 / 16384"
  using roundtrip_error_bound[of "[65535 / 65536]" 0] by simp

text \<open>
  Claim C8: the encoder is a function of its argument alone, and it computes what the
  specification describes: each sample is scaled by 32768 when negative and by 32767
  otherwise, clamped to the 16-bit range, the integers are laid out as little-endian
  octets and the octets are base64-encoded. For a sample in \<open>[-1, 1]\<close> the 16-bit element
  stored, read as a signed integer, is the truncated product.
\<close>

theorem encoder_refines_spec:
  "encodeAudioChunk x = Inr (spec_encode x)
   \<and> (\<forall>s\<in>set x. - 1 \<le> s \<and> s \<le> 1 \<longrightarrow>
          sint (ToInt16 (scale_sample s)) = js_truncate (if s < 0 then s * 32768 else s * 32767)
          \<and> spec_sample_int16 s = js_truncate (if s < 0 then s * 32768 else s * 32767))"
proof -
  have "sint (ToInt16 (scale_sample s)) = js_truncate (if s < 0 then s * 32768 else s * 32767)
        \<and> spec_sample_int16 s = js_truncate (if s < 0 then s * 32768 else s * 32767)"
    if "- 1 \<le> s" "s \<le> 1" for s
  proof -
    have "scale_sample s = (if s < 0 then s * 32768 else s * 32767)"
      using that by (simp add: scale_sample_def clamp_sample_def)
    then show ?thesis
      using scale_sample_range[of s] sint_ToInt16[of "scale_sample s"] spec_sample_int16_eq[of s]
      by simp
  qed
  then show ?thesis by (simp add: encodeAudioChunk_eq_spec)
qed

theorem encoder_refines_spec_witness:
  "encodeAudioChunk [1, - 1] = Inr (of_ascii ''/38AgA=='')
   \<and> sint (ToInt16 (scale_sample 1)) = 32767
   \<and> sint (ToInt16 (scale_sample (- 1))) = - 32768"
  using encoder_refines_spec[of "[1, - 1]"]
  by (simp add: spec_encode_pair js_truncate_def)

text \<open>
  Claim C10: the encoder never fails, whatever the samples; it clamps each sample to
  \<open>[-1, 1]\<close> before scaling, so encoding a sequence and encoding the clamped sequence give
  the same string; and every scaled and truncated sample lies in the 16-bit range, so
  that storing it into the \<open>Int16Array\<close> does not wrap around.
\<close>

theorem encoder_total_clamped:
  "encodeAudioChunk x = encodeAudioChunk (map clamp_sample x)
   \<and> (\<exists>e. encodeAudioChunk x = Inr e)
   \<and> (\<forall>s\<in>set x. - 1 \<le> clamp_sample s \<and> clamp_sample s \<le> 1
          \<and> - 32768 \<le> js_truncate (scale_sample s) \<and> js_truncate (scale_sample s) \<le> 32767
          \<and> sint (ToInt16 (scale_sample s)) = js_truncate (scale_sample s))"
proof -
  have "- 1 \<le> clamp_sample s \<and> clamp_sample s \<le> 1" for s
    by (simp add: clamp_sample_def)
  moreover have "- 32768 \<le> js_truncate (scale_sample s) \<and> js_truncate (scale_sample s) \<le> 32767" for s
    using scale_sample_range[of s] js_truncate_range[of "scale_sample s"] by simp
  moreover have "sint (ToInt16 (scale_sample s)) = js_truncate (scale_sample s)" for s
    using scale_sample_range[of s] by (simp add: sint_ToInt16)
  moreover have "\<exists>e. encodeAudioChunk x = Inr e"
    by (simp add: encodeAudioChunk_eq_spec)
  moreover have "encodeAudioChunk x = encodeAudioChunk (map clamp_sample x)"
    by (simp add: encode_clamp)
  ultimately show ?thesis by blast
qed

theorem encoder_total_clamped_witness:
  "encodeAudioChunk [2, - 3] = encodeAudioChunk [1, - 1]
   \<and> (\<exists>e. encodeAudioChunk [2, - 3] = Inr e)
   \<and> sint (ToInt16 (scale_sample 2)) = 32767
   \<and> sint (ToInt16 (scale_sample (- 3))) = - 32768"
proof -
  note w = encoder_total_clamped[of "[2, - 3]"]
  have "map clamp_sample [2, - 3] = [1, - 1]"
    by (simp add: clamp_sample_def)
  then have "encodeAudioChunk [2, - 3] = encodeAudioChunk [1, - 1]"
    using w by simp
  moreover have "\<exists>e. encodeAudioChunk [2, - 3] = Inr e"
    using w by blast
  moreover have "sint (ToInt16 (scale_sample 2)) = 32767" "sint (ToInt16 (scale_sample (- 3))) = - 32768"
    using w by (simp_all add: clamp_sample_def scale_sample_def js_truncate_def)
  ultimately show ?thesis by blast
qed

section \<open>Stopping playback\<close>

lemma length_after_stop: "length (after_stop ids ns) = length ns"
  by (simp add: after_stop_def)

lemma after_stop_Nil: "after_stop [] ns = ns"
  by (simp add: after_stop_def map_nth)

lemma try_stop:
  "try_catch (source_stop x) s =
     Inr (s\<lparr>sourceNodes :=
            (if x < length (sourceNodes s) \<and> playState (sourceNodes s ! x) \<noteq> Finished
             then (sourceNodes s)[x := (sourceNodes s ! x)\<lparr>playState := Stopped\<rparr>]
             else sourceNodes s)\<rparr>)"
  by (simp add: try_catch_def source_stop_def)

lemma after_stop_Cons:
  "after_stop xs (if x < length ns \<and> playState (ns ! x) \<noteq> Finished
                  then ns[x := (ns ! x)\<lparr>playState := Stopped\<rparr>] else ns)
   = after_stop (x # xs) ns"
  by (rule nth_equalityI) (auto simp: after_stop_def nth_list_update)

lemma forEach_stop:
  "forEach ids (\<lambda>i. try_catch (source_stop i)) s
     = Inr (s\<lparr>sourceNodes := after_stop ids (sourceNodes s)\<rparr>)"
proof (induction ids arbitrary: s)
  case Nil
  then show ?case by (simp add: after_stop_Nil)
next
  case (Cons x xs)
  let ?f = "\<lambda>i. try_catch (source_stop i)"
  let ?ns1 = "if x < length (sourceNodes s) \<and> playState (sourceNodes s ! x) \<noteq> Finished
              then (sourceNodes s)[x := (sourceNodes s ! x)\<lparr>playState := Stopped\<rparr>]
              else sourceNodes s"
  have "forEach (x # xs) ?f s = forEach xs ?f (s\<lparr>sourceNodes := ?ns1\<rparr>)"
    by (simp only: forEach.simps try_stop sum.case)
  also have "\<dots> = Inr (s\<lparr>sourceNodes := ?ns1\<rparr>
                        \<lparr>sourceNodes := after_stop xs (sourceNodes (s\<lparr>sourceNodes := ?ns1\<rparr>))\<rparr>)"
    by (rule Cons.IH)
  also have "\<dots> = Inr (s\<lparr>sourceNodes := after_stop (x # xs) (sourceNodes s)\<rparr>)"
    using after_stop_Cons[of xs x "sourceNodes s"] by simp
  finally show ?case .
qed

lemma fst_ctx_close: "fst (ctx_close c) = c\<lparr>ctx_closed := True\<rparr>"
  by (simp add: ctx_close_def)

lemma stop_all_sources_eq:
  "stop_all_sources s = Inr (s\<lparr>sourceNodes := after_stop (audioSourcesRef s) (sourceNodes s)\<rparr>)"
  by (simp add: stop_all_sources_def forEach_stop)

lemma stopLive_eq:
  "stopLive s =
     Inr (s\<lparr>sourceNodes := after_stop (audioSourcesRef s) (sourceNodes s),
            audioSourcesRef := [],
            sessionRef := None,
            inputCtxRef := map_option (\<lambda>c. c\<lparr>ctx_closed := True\<rparr>) (inputCtxRef s),
            outputCtxRef := map_option (\<lambda>c. c\<lparr>ctx_closed := True\<rparr>) (outputCtxRef s),
            isLive := False,
            status := idle,
            nextStartTimeRef := 0\<rparr>)"
  by (cases "sessionRef s")
     (simp_all add: stopLive_def stop_all_sources_eq and_then_def try_catch_def session_close_def
        Let_def fst_ctx_close)

lemma handle_interrupted_eq:
  "handle_interrupted now msg s =
     (if interrupted msg
      then Inr (s\<lparr>sourceNodes := after_stop (audioSourcesRef s) (sourceNodes s),
                  audioSourcesRef := [], nextStartTimeRef := now, status := listening\<rparr>)
      else Inr s)"
  by (simp add: handle_interrupted_def stop_all_sources_eq and_then_def)

lemma ctx_close_idem:
  "map_option (\<lambda>c. c\<lparr>ctx_closed := True\<rparr>) (map_option (\<lambda>c. c\<lparr>ctx_closed := True\<rparr>) c)
     = map_option (\<lambda>c :: AudioContext. c\<lparr>ctx_closed := True\<rparr>) c"
  by (cases c) simp_all

lemma stopLive_idem:
  "stopLive s = Inr s1 \<Longrightarrow> stopLive s1 = Inr s1"
  by (auto simp: stopLive_eq after_stop_Nil ctx_close_idem)

lemma after_stop_playState:
  "i < length ns \<Longrightarrow>
   playState (after_stop ids ns ! i) =
     (if i \<in> set ids \<and> playState (ns ! i) \<noteq> Finished then Stopped else playState (ns ! i))"
  by (simp add: after_stop_def)

section \<open>Properties of the message callback\<close>

lemma handle_transcriptions_frame:
  "sourceNodes (handle_transcriptions msg s) = sourceNodes s"
  "nextStartTimeRef (handle_transcriptions msg s) = nextStartTimeRef s"
  "audioSourcesRef (handle_transcriptions msg s) = audioSourcesRef s"
  "transcripts (handle_transcriptions msg s) = transcripts s"
  by (simp_all add: handle_transcriptions_def Let_def split: option.splits)

lemma handle_turnComplete_frame:
  "sourceNodes (handle_turnComplete msg s) = sourceNodes s"
  "nextStartTimeRef (handle_turnComplete msg s) = nextStartTimeRef s"
  "audioSourcesRef (handle_turnComplete msg s) = audioSourcesRef s"
  by (simp_all add: handle_turnComplete_def Let_def)

lemma handle_audio_cases:
  "handle_audio now msg s =
     (case audioData msg of
        None \<Rightarrow> Inr s
      | Some d \<Rightarrow>
          if d = [] then Inr s
          else (case decode_payload d of
                  Inl e \<Rightarrow> Inl e
                | Inr buf \<Rightarrow>
                    Inr (s\<lparr>sourceNodes := sourceNodes s
                              @ [\<lparr>buffer = buf, startWhen = max now (nextStartTimeRef s), playState = Scheduled\<rparr>],
                            nextStartTimeRef := fadd (max now (nextStartTimeRef s)) (duration buf),
                            audioSourcesRef := set_add (length (sourceNodes s)) (audioSourcesRef s)\<rparr>)))"
  by (simp add: handle_audio_def Let_def split: option.splits sum.splits)

lemma onmessage_quiet_nodes:
  assumes "\<not> interrupted msg"
  shows "sourceNodes (fst (onmessage now msg s)) =
           sourceNodes s @ (case decoded_buffer msg of
                              None \<Rightarrow> []
                            | Some buf \<Rightarrow> [\<lparr>buffer = buf, startWhen = max now (nextStartTimeRef s), playState = Scheduled\<rparr>])"
    and "nextStartTimeRef (fst (onmessage now msg s)) =
           (case decoded_buffer msg of
              None \<Rightarrow> nextStartTimeRef s
            | Some buf \<Rightarrow> fadd (max now (nextStartTimeRef s)) (duration buf))"
  using assms
  by (simp_all add: onmessage_def Let_def handle_audio_cases handle_interrupted_def decoded_buffer_def
        handle_transcriptions_frame handle_turnComplete_frame split: option.splits sum.splits)

lemma set_set_add: "set (set_add x xs) = insert x (set xs)"
  by (auto simp: set_add_def)

lemma drop_after_stop_snoc:
  "drop (length ns) (after_stop ids (ns @ [n]))
     = [if length ns \<in> set ids \<and> playState n \<noteq> Finished then n\<lparr>playState := Stopped\<rparr> else n]"
  by (simp add: after_stop_def drop_map)

lemma onmessage_new_nodes:
  "drop (length (sourceNodes s)) (sourceNodes (fst (onmessage now msg s)))
     = (case decoded_buffer msg of
          None \<Rightarrow> []
        | Some buf \<Rightarrow>
            [\<lparr>buffer = buf, startWhen = max now (nextStartTimeRef s),
              playState = (if interrupted msg then Stopped else Scheduled)\<rparr>])"
  by (auto simp add: onmessage_def Let_def handle_audio_cases handle_interrupted_eq decoded_buffer_def
        handle_transcriptions_frame handle_turnComplete_frame length_after_stop
        drop_after_stop_snoc[where ns = "sourceNodes s"] set_set_add
        split: option.splits sum.splits)

lemma playback_trace_Cons:
  "playback_trace ((now, msg) # evs) s =
     (case decoded_buffer msg of
        None \<Rightarrow> []
      | Some buf \<Rightarrow>
          [\<lparr>clock = now, pending = nextStartTimeRef s,
            node = \<lparr>buffer = buf, startWhen = max now (nextStartTimeRef s),
                    playState = (if interrupted msg then Stopped else Scheduled)\<rparr>\<rparr>])
     @ playback_trace evs (fst (onmessage now msg s))"
  by (simp add: Let_def onmessage_new_nodes split: option.splits)

lemma successively_nth:
  "successively P xs \<Longrightarrow> Suc i < length xs \<Longrightarrow> P (xs ! i) (xs ! Suc i)"
proof (induction P xs arbitrary: i rule: successively.induct)
  case (3 P x y xs)
  then show ?case by (cases i) simp_all
qed simp_all

lemma trace_entries:
  "map (\<lambda>e. buffer (node e)) (playback_trace evs s)
           = List.map_filter (\<lambda>ev. decoded_buffer (snd ev)) evs"
  "map clock (playback_trace evs s)
           = map fst (filter (\<lambda>ev. decoded_buffer (snd ev) \<noteq> None) evs)"
  "\<forall>e\<in>set (playback_trace evs s). startWhen (node e) = max (clock e) (pending e)"
proof (induction evs arbitrary: s)
  case Nil
  {
    case 1 show ?case by simp
  next
    case 2 show ?case by simp
  next
    case 3 show ?case by simp
  }
next
  case (Cons ev evs)
  obtain now msg where ev: "ev = (now, msg)" by (cases ev)
  {
    case 1
    show ?case
      using Cons.IH(1)[of "fst (onmessage now msg s)"]
      by (simp add: ev playback_trace_Cons del: playback_trace.simps split: option.splits)
  next
    case 2
    show ?case
      using Cons.IH(2)[of "fst (onmessage now msg s)"]
      by (simp add: ev playback_trace_Cons del: playback_trace.simps split: option.splits)
  next
    case 3
    show ?case
      using Cons.IH(3)[of "fst (onmessage now msg s)"]
      by (cases "decoded_buffer msg")
         (auto simp add: ev playback_trace_Cons simp del: playback_trace.simps)
  }
qed

lemma trace_quiet:
  assumes "\<forall>ev\<in>set evs. \<not> interrupted (snd ev)"
  shows "playback_trace evs s \<noteq> [] \<longrightarrow> pending (hd (playback_trace evs s)) = nextStartTimeRef s"
    and "successively (\<lambda>e e'. pending e' = fadd (startWhen (node e)) (duration (buffer (node e))))
           (playback_trace evs s)"
  using assms
proof (induction evs arbitrary: s)
  case Nil
  {
    case 1 show ?case by simp
  next
    case 2 show ?case by simp
  }
next
  case (Cons ev evs)
  obtain now msg where ev: "ev = (now, msg)" by (cases ev)
  {
    case 1
    then have q: "\<not> interrupted msg" "\<forall>ev\<in>set evs. \<not> interrupted (snd ev)" by (simp_all add: ev)
    show ?case
      using Cons.IH(1)[OF q(2), of "fst (onmessage now msg s)"]
      by (simp add: ev playback_trace_Cons onmessage_quiet_nodes(2)[OF q(1)]
          del: playback_trace.simps split: option.splits)
  next
    case 2
    then have q: "\<not> interrupted msg" "\<forall>ev\<in>set evs. \<not> interrupted (snd ev)" by (simp_all add: ev)
    show ?case
      using Cons.IH(2)[OF q(2), of "fst (onmessage now msg s)"]
        Cons.IH(1)[OF q(2), of "fst (onmessage now msg s)"]
      by (auto simp add: ev playback_trace_Cons onmessage_quiet_nodes(2)[OF q(1)]
          successively_Cons simp del: playback_trace.simps split: option.splits)
  }
qed

lemma decoded_not_rejected: "decoded_buffer msg = Some buf \<Longrightarrow> \<not> payload_rejected msg"
  by (auto simp: decoded_buffer_def payload_rejected_def split: option.splits sum.splits if_splits)

lemma onmessage_next:
  "nextStartTimeRef (fst (onmessage now msg s)) =
     (if interrupted msg \<and> \<not> payload_rejected msg then now
      else (case decoded_buffer msg of
              None \<Rightarrow> nextStartTimeRef s
            | Some buf \<Rightarrow> fadd (max now (nextStartTimeRef s)) (duration buf)))"
  by (auto simp add: onmessage_def Let_def handle_audio_cases handle_interrupted_eq decoded_buffer_def
        payload_rejected_def handle_transcriptions_frame handle_turnComplete_frame
        split: option.splits sum.splits)

lemma playback_trace_append:
  "playback_trace (xs @ ys) s = playback_trace xs s @ playback_trace ys (run_messages xs s)"
proof (induction xs arbitrary: s)
  case Nil
  show ?case by simp
next
  case (Cons ev xs)
  obtain now msg where ev: "ev = (now, msg)" by (cases ev)
  show ?case
    using Cons.IH[of "fst (onmessage now msg s)"] by (simp add: ev Let_def)
qed

lemma quiet_gap:
  assumes "\<forall>ev\<in>set mid. \<not> interrupted (snd ev) \<and> decoded_buffer (snd ev) = None"
  shows "playback_trace mid s = []"
    and "nextStartTimeRef (run_messages mid s) = nextStartTimeRef s"
  using assms
proof (induction mid arbitrary: s)
  case Nil
  {
    case 1 show ?case by simp
  next
    case 2 show ?case by simp
  }
next
  case (Cons ev mid)
  obtain now msg where ev: "ev = (now, msg)" by (cases ev)
  {
    case 1
    then have q: "\<not> interrupted msg" "decoded_buffer msg = None"
      "\<forall>ev\<in>set mid. \<not> interrupted (snd ev) \<and> decoded_buffer (snd ev) = None"
      by (simp_all add: ev)
    show ?case
      using Cons.IH(1)[OF q(3), of "fst (onmessage now msg s)"]
      by (simp add: ev playback_trace_Cons q(2) del: playback_trace.simps)
  next
    case 2
    then have q: "\<not> interrupted msg" "decoded_buffer msg = None"
      "\<forall>ev\<in>set mid. \<not> interrupted (snd ev) \<and> decoded_buffer (snd ev) = None"
      by (simp_all add: ev)
    show ?case
      using Cons.IH(2)[OF q(3), of "fst (onmessage now msg s)"]
      by (simp add: ev onmessage_next q(1,2))
  }
qed

lemma next_buffer_after_gap:
  assumes "\<forall>ev\<in>set mid. \<not> interrupted (snd ev) \<and> decoded_buffer (snd ev) = None"
    and "decoded_buffer m' = Some b'"
  shows "\<exists>e' R. playback_trace (mid @ (now', m') # post) s = e' # R
           \<and> clock e' = now' \<and> buffer (node e') = b'
           \<and> pending e' = nextStartTimeRef s
           \<and> startWhen (node e') = max now' (nextStartTimeRef s)"
  by (simp add: playback_trace_append quiet_gap[OF assms(1)] playback_trace_Cons assms(2)
      del: playback_trace.simps)

lemma consecutive_buffers:
  assumes "decoded_buffer m = Some b" and "\<not> interrupted m"
    and "\<forall>ev\<in>set mid. \<not> interrupted (snd ev) \<and> decoded_buffer (snd ev) = None"
    and "decoded_buffer m' = Some b'"
  shows "\<exists>e e' R. playback_trace (pre @ (now, m) # mid @ (now', m') # post) s
                     = playback_trace pre s @ e # e' # R
           \<and> clock e = now \<and> buffer (node e) = b \<and> clock e' = now'
           \<and> pending e' = fadd (startWhen (node e)) (duration b)
           \<and> startWhen (node e') = max now' (pending e')"
proof -
  let ?s1 = "run_messages pre s"
  let ?s2 = "fst (onmessage now m ?s1)"
  obtain e' R where e': "playback_trace (mid @ (now', m') # post) ?s2 = e' # R"
    "clock e' = now'" "pending e' = nextStartTimeRef ?s2"
    "startWhen (node e') = max now' (nextStartTimeRef ?s2)"
    using next_buffer_after_gap[OF assms(3,4), of now' post ?s2] by blast
  have n2: "nextStartTimeRef ?s2 = fadd (max now (nextStartTimeRef ?s1)) (duration b)"
    by (simp add: onmessage_next assms(1,2))
  let ?e = "\<lparr>clock = now, pending = nextStartTimeRef ?s1,
             node = \<lparr>buffer = b, startWhen = max now (nextStartTimeRef ?s1), playState = Scheduled\<rparr>\<rparr>"
  have "playback_trace (pre @ (now, m) # mid @ (now', m') # post) s
          = playback_trace pre s @ ?e # e' # R"
    by (simp add: playback_trace_append[of pre] playback_trace_Cons assms(1,2) e'(1)
        del: playback_trace.simps)
  then show ?thesis
    using e'(2-4) n2 by auto
qed

lemma later_buffers:
  assumes "\<forall>ev\<in>set evs. t \<le> fst ev"
  shows "\<forall>e\<in>set (playback_trace evs s). t \<le> startWhen (node e)"
proof
  fix e assume e: "e \<in> set (playback_trace evs s)"
  then have "clock e \<in> set (map clock (playback_trace evs s))" by simp
  then have "clock e \<in> fst ` set evs"
    unfolding trace_entries(2) by auto
  then have "t \<le> clock e" using assms by auto
  moreover have "startWhen (node e) = max (clock e) (pending e)"
    using trace_entries(3)[of evs s] e by blast
  ultimately show "t \<le> startWhen (node e)" by simp
qed

lemma decodeBase64Audio_silence:
  "decodeBase64Audio (of_ascii ''AAAAAAAA'') = Inr [0, 0, 0, 0, 0, 0]"
  by code_simp

lemma decode_payload_silence:
  "decode_payload (of_ascii ''AAAAAAAA'') = Inr silence"
  by (simp add: decode_payload_def decodeBase64Audio_silence decodeAudioToBuffer_def
      Int16Array_of_buffer_def createBuffer_def silence_def)

lemma of_ascii_silence_nonempty: "of_ascii ''AAAAAAAA'' \<noteq> []"
  by (simp add: of_ascii_def)

lemma decoded_buffer_silence:
  "decoded_buffer (audio_message (of_ascii ''AAAAAAAA'')) = Some silence"
  by (simp add: decoded_buffer_def audio_message_def decode_payload_silence of_ascii_silence_nonempty)

lemma decoded_buffer_marker:
  "decoded_buffer (interruption_message None) = None"
  "decoded_buffer turn_complete_message = None"
  "\<not> payload_rejected (interruption_message None)"
  by (simp_all add: decoded_buffer_def payload_rejected_def interruption_message_def
        turn_complete_message_def)

lemma message_flags:
  "\<not> interrupted (audio_message d)"
  "interrupted (interruption_message p)"
  "\<not> interrupted turn_complete_message"
  by (simp_all add: audio_message_def interruption_message_def turn_complete_message_def)

subsection \<open>Rounding at work\<close>

text \<open>
  Three frames at 24000 Hz last \<open>1 / 8000\<close> s, which is not a binary fraction: the duration
  of the buffer is the double next to it, and adding it to the clock value 7 rounds
  again.
\<close>

lemma bit_length_7999: "bit_length 7999 = 13"
  by (simp add: bit_length.simps)

lemma duration_silence: "duration silence = 4611686018427388 / 2 ^ 65"
proof -
  have "binary_exponent (1 / 8000) = - 13"
    by (simp add: binary_exponent_def bit_length_7999)
  then show ?thesis
    by (simp add: duration_def silence_def fdiv_def fl64_def round_half_even_def Let_def pow2_def)
qed

lemma fadd_7_duration: "fadd 7 (4611686018427388 / 2 ^ 65) = 7881440085386723 / 2 ^ 50"
proof -
  have "binary_exponent (7 + 4611686018427388 / 2 ^ 65) = 2"
    by (simp add: binary_exponent_def bit_length.simps)
  then show ?thesis
    unfolding fadd_def fl64_def by (simp add: round_half_even_def Let_def pow2_def)
qed

lemma fadd_7_silence: "fadd 7 (duration silence) = 7881440085386723 / 2 ^ 50"
  by (simp only: duration_silence fadd_7_duration)

text \<open>
  Claim C1, as the specification states it: whatever the sequence of buffers and the
  clock values, buffer \<open>i + 1\<close> starts no earlier than the start of buffer \<open>i\<close> plus its
  duration. It fails in two ways. An interruption between two buffers resets
  \<open>nextStartTimeRef\<close> to the clock value: a buffer at clock value 5, an interruption at 5
  and a second buffer at 5 both start at 5. And with no interruption at all, the code
  keeps the rounded sum: after a buffer that starts at 7 the next one starts at
  \<open>7881440085386723 / 2\<^sup>5\<^sup>0\<close>, just below 7 plus the duration.
\<close>

theorem playback_overlap_counterexample:
  "map (startWhen \<circ> node)
     (playback_trace [(5, audio_message (of_ascii ''AAAAAAAA'')),
                      (5, interruption_message None),
                      (5, audio_message (of_ascii ''AAAAAAAA''))] initial_state) = [5, 5]
   \<and> map (duration \<circ> buffer \<circ> node)
     (playback_trace [(5, audio_message (of_ascii ''AAAAAAAA'')),
                      (5, interruption_message None),
                      (5, audio_message (of_ascii ''AAAAAAAA''))] initial_state)
       = [4611686018427388 / 2 ^ 65, 4611686018427388 / 2 ^ 65]
   \<and> \<not> (5 + 4611686018427388 / 2 ^ 65 \<le> (5 :: real))
   \<and> map (startWhen \<circ> node)
     (playback_trace [(7, audio_message (of_ascii ''AAAAAAAA'')),
                      (7, audio_message (of_ascii ''AAAAAAAA''))] initial_state)
       = [7, 7881440085386723 / 2 ^ 50]
   \<and> \<not> (7 + 4611686018427388 / 2 ^ 65 \<le> (7881440085386723 / 2 ^ 50 :: real))"
proof -
  let ?a = "audio_message (of_ascii ''AAAAAAAA'')"
  have n0: "nextStartTimeRef initial_state = 0" by (simp add: initial_state_def)
  note run = playback_trace_Cons onmessage_next decoded_buffer_silence decoded_buffer_marker
    message_flags decoded_not_rejected[OF decoded_buffer_silence] n0
  have barge: "map (startWhen \<circ> node)
      (playback_trace [(5, ?a), (5, interruption_message None), (5, ?a)] initial_state) = [5, 5]"
    by (simp add: run del: playback_trace.simps(2))
  have "map (duration \<circ> buffer \<circ> node)
      (playback_trace [(5, ?a), (5, interruption_message None), (5, ?a)] initial_state)
        = [duration silence, duration silence]"
    by (simp add: run del: playback_trace.simps(2))
  then have durations: "map (duration \<circ> buffer \<circ> node)
      (playback_trace [(5, ?a), (5, interruption_message None), (5, ?a)] initial_state)
        = [4611686018427388 / 2 ^ 65, 4611686018427388 / 2 ^ 65]"
    by (simp only: duration_silence)
  have "map (startWhen \<circ> node) (playback_trace [(7, ?a), (7, ?a)] initial_state)
      = [7, max 7 (fadd 7 (duration silence))]"
    by (simp add: run del: playback_trace.simps(2))
  moreover have "max 7 (fadd 7 (duration silence)) = 7881440085386723 / 2 ^ 50"
    by (simp add: fadd_7_silence)
  ultimately have rounded: "map (startWhen \<circ> node)
      (playback_trace [(7, ?a), (7, ?a)] initial_state) = [7, 7881440085386723 / 2 ^ 50]"
    by (simp only:)
  have "\<not> (5 + 4611686018427388 / 2 ^ 65 \<le> (5 :: real))"
    "\<not> (7 + 4611686018427388 / 2 ^ 65 \<le> (7881440085386723 / 2 ^ 50 :: real))"
    by simp_all
  then show ?thesis using barge durations rounded by blast
qed

text \<open>
  Claim C1, amended: let messages be handled one after the other, each at an arbitrary
  clock value. The buffers scheduled are, in order, the buffers decoded from the
  messages, each with the clock value of its message. Buffer \<open>i\<close> starts at the maximum
  of its clock value and of \<open>nextStartTimeRef\<close> just before it, so it does not start in
  the past. When no message from the one of buffer \<open>i\<close> up to the one of buffer \<open>i + 1\<close>
  carries an interruption marker, \<open>nextStartTimeRef\<close> before buffer \<open>i + 1\<close> is the
  double-precision sum of the start of buffer \<open>i\<close> and its duration, and buffer \<open>i + 1\<close>
  starts at that sum or later: no earlier than the start of buffer \<open>i\<close> plus its duration
  less the rounding of that sum, half a unit in its last place. In a run with no interruption marker at all this holds
  for every \<open>i\<close>, and before the first buffer \<open>nextStartTimeRef\<close> is the value the run
  started with.
\<close>

theorem playback_schedule:
  "(let tr = playback_trace evs s in
      map (\<lambda>e. buffer (node e)) tr = List.map_filter (\<lambda>ev. decoded_buffer (snd ev)) evs
    \<and> map clock tr = map fst (filter (\<lambda>ev. decoded_buffer (snd ev) \<noteq> None) evs)
    \<and> (\<forall>i<length tr.
          startWhen (node (tr ! i)) = max (clock (tr ! i)) (pending (tr ! i))
        \<and> clock (tr ! i) \<le> startWhen (node (tr ! i))))
   \<and> (decoded_buffer m \<noteq> None \<and> \<not> interrupted m
        \<and> (\<forall>ev\<in>set mid. \<not> interrupted (snd ev) \<and> decoded_buffer (snd ev) = None)
        \<and> decoded_buffer m' \<noteq> None \<longrightarrow>
       (let tr = playback_trace (pre @ (now, m) # mid @ (now', m') # post) s;
            i = length (playback_trace pre s)
        in Suc i < length tr
         \<and> clock (tr ! i) = now
         \<and> clock (tr ! Suc i) = now'
         \<and> pending (tr ! Suc i)
             = fadd (startWhen (node (tr ! i))) (duration (buffer (node (tr ! i))))
         \<and> fadd (startWhen (node (tr ! i))) (duration (buffer (node (tr ! i))))
             \<le> startWhen (node (tr ! Suc i))
         \<and> startWhen (node (tr ! i)) + duration (buffer (node (tr ! i)))
               - max (\<bar>startWhen (node (tr ! i)) + duration (buffer (node (tr ! i)))\<bar> / 2 ^ 53)
                     (1 / 2 ^ 1075)
             \<le> startWhen (node (tr ! Suc i))))
   \<and> ((\<forall>ev\<in>set evs. \<not> interrupted (snd ev)) \<longrightarrow>
       (let tr = playback_trace evs s in
          (tr \<noteq> [] \<longrightarrow> pending (tr ! 0) = nextStartTimeRef s)
        \<and> (\<forall>i. Suc i < length tr \<longrightarrow>
               pending (tr ! Suc i)
                 = fadd (startWhen (node (tr ! i))) (duration (buffer (node (tr ! i))))
             \<and> fadd (startWhen (node (tr ! i))) (duration (buffer (node (tr ! i))))
                 \<le> startWhen (node (tr ! Suc i))
             \<and> startWhen (node (tr ! i)) + duration (buffer (node (tr ! i)))
                   - max (\<bar>startWhen (node (tr ! i)) + duration (buffer (node (tr ! i)))\<bar> / 2 ^ 53)
                         (1 / 2 ^ 1075)
                 \<le> startWhen (node (tr ! Suc i)))))"
proof -
  let ?tr = "playback_trace evs s"
  note g = trace_entries[of evs s]
  have start: "startWhen (node (?tr ! i)) = max (clock (?tr ! i)) (pending (?tr ! i))"
    if "i < length ?tr" for i
    using g(3) that by simp
  have past: "clock (?tr ! i) \<le> startWhen (node (?tr ! i))" if "i < length ?tr" for i
    using start[OF that] by simp
  have whole: "map (\<lambda>e. buffer (node e)) ?tr = List.map_filter (\<lambda>ev. decoded_buffer (snd ev)) evs
    \<and> map clock ?tr = map fst (filter (\<lambda>ev. decoded_buffer (snd ev) \<noteq> None) evs)
    \<and> (\<forall>i<length ?tr.
          startWhen (node (?tr ! i)) = max (clock (?tr ! i)) (pending (?tr ! i))
        \<and> clock (?tr ! i) \<le> startWhen (node (?tr ! i)))"
    using g(1,2) start past by blast
  have pair: "Suc (length (playback_trace pre s)) < length tr
         \<and> clock (tr ! length (playback_trace pre s)) = now
         \<and> clock (tr ! Suc (length (playback_trace pre s))) = now'
         \<and> pending (tr ! Suc (length (playback_trace pre s)))
             = fadd (startWhen (node (tr ! length (playback_trace pre s))))
                 (duration (buffer (node (tr ! length (playback_trace pre s)))))
         \<and> fadd (startWhen (node (tr ! length (playback_trace pre s))))
                 (duration (buffer (node (tr ! length (playback_trace pre s)))))
             \<le> startWhen (node (tr ! Suc (length (playback_trace pre s))))
         \<and> startWhen (node (tr ! length (playback_trace pre s)))
               + duration (buffer (node (tr ! length (playback_trace pre s))))
               - max (\<bar>startWhen (node (tr ! length (playback_trace pre s)))
                       + duration (buffer (node (tr ! length (playback_trace pre s))))\<bar> / 2 ^ 53)
                     (1 / 2 ^ 1075)
             \<le> startWhen (node (tr ! Suc (length (playback_trace pre s))))"
    if h: "decoded_buffer m \<noteq> None" "\<not> interrupted m"
      "\<forall>ev\<in>set mid. \<not> interrupted (snd ev) \<and> decoded_buffer (snd ev) = None"
      "decoded_buffer m' \<noteq> None"
      and tr: "tr = playback_trace (pre @ (now, m) # mid @ (now', m') # post) s"
    for tr
  proof -
    obtain b b' where b: "decoded_buffer m = Some b" "decoded_buffer m' = Some b'"
      using h(1,4) by auto
    obtain e e' R where c: "tr = playback_trace pre s @ e # e' # R"
      "clock e = now" "buffer (node e) = b" "clock e' = now'"
      "pending e' = fadd (startWhen (node e)) (duration b)"
      "startWhen (node e') = max now' (pending e')"
      using consecutive_buffers[OF b(1) h(2,3) b(2), of pre now now' post s] tr by blast
    have i: "tr ! length (playback_trace pre s) = e"
      "tr ! Suc (length (playback_trace pre s)) = e'"
      by (simp_all add: c(1) nth_append)
    have "Suc (length (playback_trace pre s)) < length tr" by (simp add: c(1))
    moreover have "fadd (startWhen (node e)) (duration b) \<le> startWhen (node e')"
      by (simp add: c(5,6))
    moreover have "startWhen (node e) + duration b
        - max (\<bar>startWhen (node e) + duration b\<bar> / 2 ^ 53) (1 / 2 ^ 1075) \<le> startWhen (node e')"
      using fadd_lower[of "startWhen (node e)" "duration b"] calculation(2) by (rule order_trans)
    ultimately show ?thesis using c(2-5) unfolding i by blast
  qed
  have chain: "pending (?tr ! Suc i) = fadd (startWhen (node (?tr ! i))) (duration (buffer (node (?tr ! i))))
             \<and> fadd (startWhen (node (?tr ! i))) (duration (buffer (node (?tr ! i))))
                  \<le> startWhen (node (?tr ! Suc i))
             \<and> startWhen (node (?tr ! i)) + duration (buffer (node (?tr ! i)))
                   - max (\<bar>startWhen (node (?tr ! i)) + duration (buffer (node (?tr ! i)))\<bar> / 2 ^ 53)
                         (1 / 2 ^ 1075)
                 \<le> startWhen (node (?tr ! Suc i))"
    if quiet: "\<forall>ev\<in>set evs. \<not> interrupted (snd ev)" and i: "Suc i < length ?tr" for i
  proof -
    have p: "pending (?tr ! Suc i) = fadd (startWhen (node (?tr ! i))) (duration (buffer (node (?tr ! i))))"
      using successively_nth[OF trace_quiet(2)[OF quiet, of s] i] .
    then have le: "fadd (startWhen (node (?tr ! i))) (duration (buffer (node (?tr ! i))))
        \<le> startWhen (node (?tr ! Suc i))"
      using start[OF i] by simp
    have "startWhen (node (?tr ! i)) + duration (buffer (node (?tr ! i)))
        - max (\<bar>startWhen (node (?tr ! i)) + duration (buffer (node (?tr ! i)))\<bar> / 2 ^ 53)
              (1 / 2 ^ 1075) \<le> startWhen (node (?tr ! Suc i))"
      using fadd_lower[of "startWhen (node (?tr ! i))" "duration (buffer (node (?tr ! i)))"] le
      by (rule order_trans)
    then show ?thesis using p le by blast
  qed
  have first: "pending (?tr ! 0) = nextStartTimeRef s"
    if "\<forall>ev\<in>set evs. \<not> interrupted (snd ev)" "?tr \<noteq> []"
    using trace_quiet(1)[OF that(1), of s] that(2) by (simp add: hd_conv_nth)
  show ?thesis
    unfolding Let_def using whole pair chain first by blast
qed

theorem playback_schedule_witness:
  "(let tr = playback_trace [(7, audio_message (of_ascii ''AAAAAAAA'')),
                             (7, turn_complete_message),
                             (7, audio_message (of_ascii ''AAAAAAAA''))] initial_state in
      length tr = 2
    \<and> startWhen (node (tr ! 0)) = 7
    \<and> duration (buffer (node (tr ! 0))) = 4611686018427388 / 2 ^ 65
    \<and> pending (tr ! 1) = 7881440085386723 / 2 ^ 50
    \<and> startWhen (node (tr ! 1)) = 7881440085386723 / 2 ^ 50)"
proof -
  let ?a = "audio_message (of_ascii ''AAAAAAAA'')"
  let ?evs = "[(7 :: real, ?a), (7, turn_complete_message), (7, ?a)]"
  define tr where "tr = playback_trace ?evs initial_state"
  have quiet: "\<forall>ev\<in>set ?evs. \<not> interrupted (snd ev)"
    by (simp add: message_flags)
  have h: "decoded_buffer ?a \<noteq> None \<and> \<not> interrupted ?a
        \<and> (\<forall>ev\<in>set [(7 :: real, turn_complete_message)].
              \<not> interrupted (snd ev) \<and> decoded_buffer (snd ev) = None)
        \<and> decoded_buffer ?a \<noteq> None"
    by (simp add: decoded_buffer_silence decoded_buffer_marker message_flags)
  have run: "[] @ (7, ?a) # [(7, turn_complete_message)] @ (7, ?a) # [] = ?evs"
    by simp
  have pre: "length (playback_trace [] initial_state) = 0"
    by simp
  note w = playback_schedule[of ?evs initial_state ?a "[(7, turn_complete_message)]" ?a
      "[]" 7 7 "[]", unfolded Let_def run pre, folded tr_def]
  have bufs: "map (\<lambda>e. buffer (node e)) tr = [silence, silence]"
    using w by (simp add: decoded_buffer_silence decoded_buffer_marker)
  have len: "length tr = 2"
    using arg_cong[OF bufs, of length] by simp
  have b0: "buffer (node (tr ! 0)) = silence"
    using arg_cong[OF bufs, of "\<lambda>l. l ! 0"] len by simp
  have d0: "duration (buffer (node (tr ! 0))) = 4611686018427388 / 2 ^ 65"
    by (simp add: b0 duration_silence)
  have pair: "clock (tr ! 0) = 7 \<and> clock (tr ! Suc 0) = 7
      \<and> pending (tr ! Suc 0) = fadd (startWhen (node (tr ! 0))) (duration (buffer (node (tr ! 0))))"
    using w h by simp
  have ne: "tr \<noteq> []" using len by auto
  have p0: "pending (tr ! 0) = 0"
    using w quiet ne by (simp add: initial_state_def)
  have s0: "startWhen (node (tr ! 0)) = 7"
  proof -
    have "startWhen (node (tr ! 0)) = max (clock (tr ! 0)) (pending (tr ! 0))"
      using w len by simp
    then show ?thesis using pair p0 by simp
  qed
  have p1: "pending (tr ! Suc 0) = 7881440085386723 / 2 ^ 50"
    using pair by (simp only: s0 d0 fadd_7_duration)
  have s1: "startWhen (node (tr ! Suc 0)) = 7881440085386723 / 2 ^ 50"
  proof -
    have "startWhen (node (tr ! Suc 0)) = max (clock (tr ! Suc 0)) (pending (tr ! Suc 0))"
      using w len by simp
    then show ?thesis using pair p1 by simp
  qed
  have "length tr = 2 \<and> startWhen (node (tr ! 0)) = 7
      \<and> duration (buffer (node (tr ! 0))) = 4611686018427388 / 2 ^ 65
      \<and> pending (tr ! 1) = 7881440085386723 / 2 ^ 50
      \<and> startWhen (node (tr ! 1)) = 7881440085386723 / 2 ^ 50"
    using len s0 d0 p1 s1 by simp
  then show ?thesis unfolding Let_def tr_def .
qed

text \<open>
  A finished node in the set is a state the session reaches: schedule one buffer and
  let its playback end before the \<open>ended\<close> event is handled. \<open>stop()\<close> on it throws, and
  stopLive completes all the same.
\<close>

lemma finished_node_reachable:
  "(let s1 = fst (onmessage 0 (audio_message (of_ascii ''AAAAAAAA'')) initial_state);
        s2 = playback_finished 0 s1
    in audioSourcesRef s2 = [0]
     \<and> playState (sourceNodes s2 ! 0) = Finished
     \<and> source_stop 0 s2 = Inl PlaybackStopError
     \<and> (\<exists>s'. stopLive s2 = Inr s'))"
  by (simp add: onmessage_def handle_transcriptions_def handle_turnComplete_def handle_audio_def
      handle_interrupted_def audio_message_def of_ascii_silence_nonempty decode_payload_silence
      initial_state_def set_add_def playback_finished_def source_stop_def stopLive_eq Let_def)

section \<open>Turn completion\<close>

lemma onmessage_frame:
  "transcripts (fst (onmessage now msg s)) = transcripts (handle_turnComplete msg (handle_transcriptions msg s))"
  "currentTranscriptionRef (fst (onmessage now msg s))
     = currentTranscriptionRef (handle_turnComplete msg (handle_transcriptions msg s))"
  "status (handle_turnComplete msg (handle_transcriptions msg s)) = listening
     \<Longrightarrow> status (fst (onmessage now msg s)) = listening"
  by (simp_all add: onmessage_def Let_def handle_audio_cases handle_interrupted_eq
        split: option.splits sum.splits)

text \<open>
  Claim C4: handling a message with the turn-complete marker, whatever else it carries
  and whether or not its audio decodes, appends to the transcript log nothing when both
  accumulated texts trim to the empty string, one model line when only the user text
  does, one user line when only the model text does, and the user line followed by the
  model line otherwise; afterwards both accumulation buffers are empty and the status
  is listening. The accumulated texts are those of the state, extended by the
  transcription texts of the same message, if it has any.
\<close>

theorem turn_complete_flush:
  assumes "turnComplete msg"
  shows "(let acc = currentTranscriptionRef (handle_transcriptions msg s);
              userText = js_trim (user acc);
              modelText = js_trim (model acc);
              s' = fst (onmessage now msg s)
          in transcripts s' =
               transcripts s
               @ (if userText = [] \<and> modelText = [] then []
                  else if userText = [] then [\<lparr>line_text = modelText, role = role_model\<rparr>]
                  else if modelText = [] then [\<lparr>line_text = userText, role = role_user\<rparr>]
                  else [\<lparr>line_text = userText, role = role_user\<rparr>,
                        \<lparr>line_text = modelText, role = role_model\<rparr>])
             \<and> currentTranscriptionRef s' = \<lparr>user = [], model = []\<rparr>
             \<and> status s' = listening)
         \<and> (inputTranscription msg = None \<and> outputTranscription msg = None
              \<longrightarrow> currentTranscriptionRef (handle_transcriptions msg s) = currentTranscriptionRef s)"
proof -
  let ?s1 = "handle_transcriptions msg s"
  have "status (handle_turnComplete msg ?s1) = listening"
    using assms by (simp add: handle_turnComplete_def Let_def)
  then have "status (fst (onmessage now msg s)) = listening"
    by (rule onmessage_frame(3))
  moreover have "currentTranscriptionRef (handle_turnComplete msg ?s1) = \<lparr>user = [], model = []\<rparr>"
    using assms by (simp add: handle_turnComplete_def Let_def)
  moreover have "transcripts (handle_turnComplete msg ?s1) =
      transcripts s
      @ (if js_trim (user (currentTranscriptionRef ?s1)) = [] \<and> js_trim (model (currentTranscriptionRef ?s1)) = [] then []
         else if js_trim (user (currentTranscriptionRef ?s1)) = []
           then [\<lparr>line_text = js_trim (model (currentTranscriptionRef ?s1)), role = role_model\<rparr>]
         else if js_trim (model (currentTranscriptionRef ?s1)) = []
           then [\<lparr>line_text = js_trim (user (currentTranscriptionRef ?s1)), role = role_user\<rparr>]
         else [\<lparr>line_text = js_trim (user (currentTranscriptionRef ?s1)), role = role_user\<rparr>,
               \<lparr>line_text = js_trim (model (currentTranscriptionRef ?s1)), role = role_model\<rparr>])"
    using assms by (simp add: handle_turnComplete_def Let_def handle_transcriptions_frame)
  moreover have "inputTranscription msg = None \<and> outputTranscription msg = None
              \<longrightarrow> currentTranscriptionRef ?s1 = currentTranscriptionRef s"
    by (simp add: handle_transcriptions_def)
  ultimately show ?thesis
    unfolding Let_def onmessage_frame(1,2) by blast
qed

lemma js_trim_Hola: "js_trim (of_ascii ''Hola '') = of_ascii ''Hola''"
  by (simp add: js_trim_def of_ascii_def is_js_whitespace_def)

lemma js_trim_blank: "js_trim (of_ascii '' '') = []"
  by (simp add: js_trim_def of_ascii_def is_js_whitespace_def)

theorem turn_complete_flush_witness:
  "transcripts (fst (onmessage 0 turn_complete_message
      (initial_state\<lparr>currentTranscriptionRef := \<lparr>user = of_ascii '' '', model = of_ascii ''Hola ''\<rparr>\<rparr>)))
     = [\<lparr>line_text = of_ascii ''Hola'', role = role_model\<rparr>]
   \<and> status (fst (onmessage 0 turn_complete_message
      (initial_state\<lparr>currentTranscriptionRef := \<lparr>user = of_ascii '' '', model = of_ascii ''Hola ''\<rparr>\<rparr>)))
     = listening"
proof -
  let ?s = "initial_state\<lparr>currentTranscriptionRef := \<lparr>user = of_ascii '' '', model = of_ascii ''Hola ''\<rparr>\<rparr>"
  have tc: "turnComplete turn_complete_message" by (simp add: turn_complete_message_def)
  have acc: "currentTranscriptionRef (handle_transcriptions turn_complete_message ?s)
             = \<lparr>user = of_ascii '' '', model = of_ascii ''Hola ''\<rparr>"
    by (simp add: handle_transcriptions_def turn_complete_message_def)
  have ne: "of_ascii ''Hola'' \<noteq> []" by (simp add: of_ascii_def)
  show ?thesis
    using turn_complete_flush[OF tc, of ?s 0] ne
    unfolding Let_def acc
    by (simp add: js_trim_Hola js_trim_blank initial_state_def)
qed

section \<open>Interruption\<close>

lemma decodeBase64Audio_bang: "decodeBase64Audio [33] = Inl InvalidCharacterError"
  by code_simp

lemma decode_payload_bang: "decode_payload [33] = Inl InvalidCharacterError"
  by (simp add: decode_payload_def decodeBase64Audio_bang)

text \<open>
  Claim C2, as the specification states it, for every message with an interruption
  marker. It fails for a message that also carries an audio payload that does not
  decode: \<open>atob\<close> throws on the payload \<open>!\<close>, the callback rejects at the decoding step, and
  the interruption step below it never runs. The scheduled node stays scheduled and in
  the set, \<open>nextStartTimeRef\<close> and the status keep their values.
\<close>

theorem interruption_skipped_counterexample:
  "interrupted (interruption_message (Some [33]))
   \<and> onmessage 7 (interruption_message (Some [33])) busy_state
        = (busy_state, Some InvalidCharacterError)
   \<and> audioSourcesRef busy_state \<noteq> []
   \<and> playState (sourceNodes busy_state ! 1) = Scheduled
   \<and> nextStartTimeRef busy_state \<noteq> 7
   \<and> status busy_state \<noteq> listening"
  by (simp add: interruption_message_def onmessage_def handle_transcriptions_def
      handle_turnComplete_def handle_audio_def decode_payload_bang busy_state_def)

lemma onmessage_interrupted:
  assumes "interrupted msg" and "\<not> payload_rejected msg"
  shows "snd (onmessage now msg s) = None"
    and "audioSourcesRef (fst (onmessage now msg s)) = []"
    and "nextStartTimeRef (fst (onmessage now msg s)) = now"
    and "status (fst (onmessage now msg s)) = listening"
    and "sourceNodes (fst (onmessage now msg s)) =
           (case decoded_buffer msg of
              None \<Rightarrow> after_stop (audioSourcesRef s) (sourceNodes s)
            | Some buf \<Rightarrow>
                after_stop (set_add (length (sourceNodes s)) (audioSourcesRef s))
                  (sourceNodes s @ [\<lparr>buffer = buf, startWhen = max now (nextStartTimeRef s),
                                     playState = Scheduled\<rparr>]))"
  using assms
  by (auto simp add: onmessage_def Let_def handle_audio_cases handle_interrupted_eq decoded_buffer_def
        payload_rejected_def handle_transcriptions_frame handle_turnComplete_frame
        split: option.splits sum.splits)

text \<open>
  Claim C2, amended: for every state and every clock value, handling a message with an
  interruption marker whose audio payload is missing, empty or decodes leaves no error,
  an empty set of active sources, \<open>nextStartTimeRef\<close> at the clock value and the status
  listening; no node that was in the set, and no node the message itself scheduled, is
  still scheduled. Every buffer scheduled by later messages, whatever they carry,
  starts at the clock value of the interruption or later, the output clock never
  running backwards. And the next buffer, when no interruption marker comes before it,
  starts at the maximum of its own clock value and that of the interruption: at once,
  not at a stale offset.
\<close>

theorem interruption_handled:
  assumes "interrupted msg" and "\<not> payload_rejected msg"
  shows "(let s' = fst (onmessage now msg s) in
            snd (onmessage now msg s) = None
          \<and> audioSourcesRef s' = []
          \<and> nextStartTimeRef s' = now
          \<and> status s' = listening
          \<and> (\<forall>i<length (sourceNodes s').
                 i \<in> set (audioSourcesRef s) \<or> length (sourceNodes s) \<le> i
                 \<longrightarrow> playState (sourceNodes s' ! i) \<noteq> Scheduled)
          \<and> (\<forall>evs. (\<forall>ev\<in>set evs. now \<le> fst ev)
                 \<longrightarrow> (\<forall>e\<in>set (playback_trace evs s'). now \<le> startWhen (node e)))
          \<and> (\<forall>mid now' m' post.
                 (\<forall>ev\<in>set mid. \<not> interrupted (snd ev) \<and> decoded_buffer (snd ev) = None)
                 \<and> decoded_buffer m' \<noteq> None
                 \<longrightarrow> playback_trace (mid @ (now', m') # post) s' \<noteq> []
                   \<and> startWhen (node (hd (playback_trace (mid @ (now', m') # post) s')))
                       = max now' now))"
proof -
  let ?s' = "fst (onmessage now msg s)"
  note m = onmessage_interrupted[OF assms, of now s]
  have stopped: "playState (sourceNodes ?s' ! i) \<noteq> Scheduled"
    if "i < length (sourceNodes ?s')" "i \<in> set (audioSourcesRef s) \<or> length (sourceNodes s) \<le> i" for i
  proof (cases "decoded_buffer msg")
    case None
    then show ?thesis using that
      by (auto simp: m(5) length_after_stop after_stop_playState)
  next
    case (Some buf)
    then show ?thesis using that
      by (auto simp: m(5) length_after_stop after_stop_playState set_set_add nth_append)
  qed
  have later: "\<forall>e\<in>set (playback_trace evs ?s'). now \<le> startWhen (node e)"
    if "\<forall>ev\<in>set evs. now \<le> fst ev" for evs
    using later_buffers[OF that, of ?s'] .
  have at_once: "playback_trace (mid @ (now', m') # post) ?s' \<noteq> []
      \<and> startWhen (node (hd (playback_trace (mid @ (now', m') # post) ?s'))) = max now' now"
    if gap: "\<forall>ev\<in>set mid. \<not> interrupted (snd ev) \<and> decoded_buffer (snd ev) = None"
      and buf: "decoded_buffer m' \<noteq> None" for mid now' m' post
  proof -
    obtain b' where "decoded_buffer m' = Some b'" using buf by auto
    then obtain e' R where "playback_trace (mid @ (now', m') # post) ?s' = e' # R"
      "startWhen (node e') = max now' (nextStartTimeRef ?s')"
      using next_buffer_after_gap[OF gap, of m' b' now' post ?s'] by blast
    then show ?thesis by (simp add: m(3))
  qed
  show ?thesis
    unfolding Let_def using m(1-4) stopped later at_once by blast
qed

theorem interruption_handled_witness:
  "(let s' = fst (onmessage 7 (interruption_message None) busy_state) in
      audioSourcesRef s' = [] \<and> nextStartTimeRef s' = 7 \<and> status s' = listening
    \<and> playState (sourceNodes s' ! 1) \<noteq> Scheduled
    \<and> startWhen (node (hd (playback_trace
          [(8, turn_complete_message), (9, audio_message (of_ascii ''AAAAAAAA''))] s'))) = 9)"
proof -
  define s' where "s' = fst (onmessage 7 (interruption_message None) busy_state)"
  have a: "interrupted (interruption_message None)" "\<not> payload_rejected (interruption_message None)"
    by (simp_all add: message_flags decoded_buffer_marker)
  note w = interruption_handled[OF a, of 7 busy_state, unfolded Let_def, folded s'_def]
  have nodes: "sourceNodes s' = after_stop (audioSourcesRef busy_state) (sourceNodes busy_state)"
    unfolding s'_def using onmessage_interrupted(5)[OF a, of 7 busy_state]
    by (simp add: decoded_buffer_marker)
  have len: "length (sourceNodes s') = 2"
    by (simp add: nodes length_after_stop busy_state_def)
  have "1 < length (sourceNodes s')" "1 \<in> set (audioSourcesRef busy_state)"
    by (simp_all add: len busy_state_def)
  then have "playState (sourceNodes s' ! 1) \<noteq> Scheduled"
    using w by blast
  moreover
  let ?a = "audio_message (of_ascii ''AAAAAAAA'')"
  have gap: "\<forall>ev\<in>set [(8 :: real, turn_complete_message)].
               \<not> interrupted (snd ev) \<and> decoded_buffer (snd ev) = None"
    by (simp add: message_flags decoded_buffer_marker)
  have buf: "decoded_buffer ?a \<noteq> None" by (simp add: decoded_buffer_silence)
  have "startWhen (node (hd (playback_trace ([(8, turn_complete_message)] @ (9, ?a) # []) s')))
          = max 9 7"
    using w gap buf by blast
  then have "startWhen (node (hd (playback_trace [(8, turn_complete_message), (9, ?a)] s'))) = 9"
    by simp
  ultimately show ?thesis
    unfolding Let_def s'_def[symmetric] using w by blast
qed

section \<open>Teardown and the capture guard\<close>

text \<open>
  Claim C5, as the specification states it, has stopLive clear the transcript log and
  the two accumulation buffers. It does neither: stopping the session above leaves the
  log with its line and the user buffer with its text.
\<close>

theorem stop_keeps_transcripts_counterexample:
  "(case stopLive busy_state of
      Inl e \<Rightarrow> False
    | Inr s' \<Rightarrow>
        transcripts s' = [\<lparr>line_text = of_ascii ''Hola'', role = role_model\<rparr>]
      \<and> transcripts s' \<noteq> []
      \<and> user (currentTranscriptionRef s') = of_ascii ''hi''
      \<and> user (currentTranscriptionRef s') \<noteq> [])"
  by (simp add: stopLive_eq busy_state_def of_ascii_def)

text \<open>
  Claim C5, amended: stopLive always completes; afterwards no tracked node is still
  scheduled, the set of active sources is empty, the session handle is cleared, both
  audio contexts are closed, \<open>isLive\<close> is false, the status is idle and
  \<open>nextStartTimeRef\<close> is 0; the transcript log and the accumulation buffers are as they
  were before.
\<close>

theorem stop_resets_session:
  "\<exists>s'. stopLive s = Inr s'
      \<and> (\<forall>i\<in>set (audioSourcesRef s).
            i < length (sourceNodes s) \<longrightarrow> playState (sourceNodes s' ! i) \<noteq> Scheduled)
      \<and> audioSourcesRef s' = []
      \<and> sessionRef s' = None
      \<and> inputCtxRef s' = map_option (\<lambda>c. c\<lparr>ctx_closed := True\<rparr>) (inputCtxRef s)
      \<and> outputCtxRef s' = map_option (\<lambda>c. c\<lparr>ctx_closed := True\<rparr>) (outputCtxRef s)
      \<and> isLive s' = False
      \<and> status s' = idle
      \<and> nextStartTimeRef s' = 0
      \<and> transcripts s' = transcripts s
      \<and> currentTranscriptionRef s' = currentTranscriptionRef s"
proof -
  let ?ns = "after_stop (audioSourcesRef s) (sourceNodes s)"
  have "playState (?ns ! i) \<noteq> Scheduled"
    if "i \<in> set (audioSourcesRef s)" "i < length (sourceNodes s)" for i
    using that by (simp add: after_stop_playState)
  then show ?thesis
    by (simp add: stopLive_eq)
qed

theorem stop_resets_session_witness:
  "\<exists>s'. stopLive busy_state = Inr s'
      \<and> playState (sourceNodes s' ! 1) \<noteq> Scheduled
      \<and> audioSourcesRef s' = [] \<and> sessionRef s' = None
      \<and> status s' = idle \<and> nextStartTimeRef s' = 0
      \<and> transcripts s' = [\<lparr>line_text = of_ascii ''Hola'', role = role_model\<rparr>]"
proof -
  obtain s' where w: "stopLive busy_state = Inr s'"
      "\<forall>i\<in>set (audioSourcesRef busy_state).
            i < length (sourceNodes busy_state) \<longrightarrow> playState (sourceNodes s' ! i) \<noteq> Scheduled"
      "audioSourcesRef s' = []" "sessionRef s' = None" "status s' = idle" "nextStartTimeRef s' = 0"
      "transcripts s' = transcripts busy_state"
    using stop_resets_session[of busy_state] by blast
  have "1 \<in> set (audioSourcesRef busy_state)" "1 < length (sourceNodes busy_state)"
    by (simp_all add: busy_state_def)
  then have "playState (sourceNodes s' ! 1) \<noteq> Scheduled" using w(2) by blast
  moreover have "transcripts busy_state = [\<lparr>line_text = of_ascii ''Hola'', role = role_model\<rparr>]"
    by (simp add: busy_state_def)
  ultimately show ?thesis using w by simp
qed

text \<open>
  Claim C7: stopLive raises no error in any state and leaves the status idle; called
  again on the state it left, it raises no error and leaves that state unchanged; on the
  state of a component that was never started it changes nothing. (On the second call
  \<open>close()\<close> finds each audio context closed and returns a rejected promise, which
  stopLive drops.)
\<close>

theorem stop_idempotent:
  "(\<exists>s1. stopLive s = Inr s1 \<and> status s1 = idle \<and> stopLive s1 = Inr s1)
   \<and> stopLive initial_state = Inr initial_state"
proof -
  obtain s1 where s1: "stopLive s = Inr s1" by (simp add: stopLive_eq)
  then have "status s1 = idle" by (auto simp: stopLive_eq)
  moreover have "stopLive s1 = Inr s1" using s1 by (rule stopLive_idem)
  moreover have "stopLive initial_state = Inr initial_state"
    by (simp add: stopLive_eq initial_state_def after_stop_Nil)
  ultimately show ?thesis using s1 by blast
qed

theorem stop_idempotent_witness:
  "\<exists>s1. stopLive busy_state = Inr s1 \<and> status s1 = idle \<and> stopLive s1 = Inr s1
        \<and> s1 \<noteq> busy_state"
proof -
  obtain s1 where w: "stopLive busy_state = Inr s1" "status s1 = idle" "stopLive s1 = Inr s1"
    using stop_idempotent[of busy_state] by blast
  have "status busy_state \<noteq> idle" by (simp add: busy_state_def)
  with w show ?thesis by auto
qed

text \<open>
  Claim C9: \<open>stop()\<close> on a node that has finished throws, and neither stopLive nor the
  interruption step lets the error out: both complete, every finished node of the set
  stays finished, and every other node of the set, wherever it stands in the iteration
  order, is stopped.
\<close>

theorem stop_errors_ignored:
  "(\<forall>i<length (sourceNodes s).
       playState (sourceNodes s ! i) = Finished \<longrightarrow> source_stop i s = Inl PlaybackStopError)
   \<and> (\<exists>s'. stopLive s = Inr s'
          \<and> (\<forall>i\<in>set (audioSourcesRef s).
                i < length (sourceNodes s) \<longrightarrow>
                playState (sourceNodes s' ! i)
                  = (if playState (sourceNodes s ! i) = Finished then Finished else Stopped)))
   \<and> (interrupted msg \<longrightarrow>
        (\<exists>s'. handle_interrupted now msg s = Inr s'
          \<and> (\<forall>i\<in>set (audioSourcesRef s).
                i < length (sourceNodes s) \<longrightarrow>
                playState (sourceNodes s' ! i)
                  = (if playState (sourceNodes s ! i) = Finished then Finished else Stopped))))"
proof -
  let ?ns = "after_stop (audioSourcesRef s) (sourceNodes s)"
  have throws: "source_stop i s = Inl PlaybackStopError"
    if "i < length (sourceNodes s)" "playState (sourceNodes s ! i) = Finished" for i
    using that by (simp add: source_stop_def)
  have swallowed: "playState (?ns ! i)
        = (if playState (sourceNodes s ! i) = Finished then Finished else Stopped)"
    if "i \<in> set (audioSourcesRef s)" "i < length (sourceNodes s)" for i
    using that by (simp add: after_stop_playState)
  have "\<exists>s'. stopLive s = Inr s'
          \<and> (\<forall>i\<in>set (audioSourcesRef s).
                i < length (sourceNodes s) \<longrightarrow>
                playState (sourceNodes s' ! i)
                  = (if playState (sourceNodes s ! i) = Finished then Finished else Stopped))"
    using swallowed by (simp add: stopLive_eq)
  moreover have "\<exists>s'. handle_interrupted now msg s = Inr s'
          \<and> (\<forall>i\<in>set (audioSourcesRef s).
                i < length (sourceNodes s) \<longrightarrow>
                playState (sourceNodes s' ! i)
                  = (if playState (sourceNodes s ! i) = Finished then Finished else Stopped))"
    if "interrupted msg"
    using swallowed that by (simp add: handle_interrupted_eq)
  ultimately show ?thesis using throws by blast
qed

theorem stop_errors_ignored_witness:
  "source_stop 0 busy_state = Inl PlaybackStopError
   \<and> (\<exists>s'. stopLive busy_state = Inr s'
          \<and> playState (sourceNodes s' ! 0) = Finished
          \<and> playState (sourceNodes s' ! 1) = Stopped)
   \<and> (\<exists>s'. handle_interrupted 7 (interruption_message None) busy_state = Inr s'
          \<and> playState (sourceNodes s' ! 0) = Finished
          \<and> playState (sourceNodes s' ! 1) = Stopped)"
proof -
  note w = stop_errors_ignored[of busy_state "interruption_message None" 7]
  have f: "0 < length (sourceNodes busy_state)" "playState (sourceNodes busy_state ! 0) = Finished"
    "1 < length (sourceNodes busy_state)" "playState (sourceNodes busy_state ! 1) \<noteq> Finished"
    "0 \<in> set (audioSourcesRef busy_state)" "1 \<in> set (audioSourcesRef busy_state)"
    "interrupted (interruption_message None)"
    by (simp_all add: busy_state_def interruption_message_def)
  have "source_stop 0 busy_state = Inl PlaybackStopError"
    using w f(1,2) by blast
  moreover obtain s' where "stopLive busy_state = Inr s'"
    "\<forall>i\<in>set (audioSourcesRef busy_state). i < length (sourceNodes busy_state) \<longrightarrow>
        playState (sourceNodes s' ! i)
          = (if playState (sourceNodes busy_state ! i) = Finished then Finished else Stopped)"
    using w by blast
  then have "\<exists>s'. stopLive busy_state = Inr s'
          \<and> playState (sourceNodes s' ! 0) = Finished \<and> playState (sourceNodes s' ! 1) = Stopped"
    using f by (metis (full_types))
  moreover obtain s'' where "handle_interrupted 7 (interruption_message None) busy_state = Inr s''"
    "\<forall>i\<in>set (audioSourcesRef busy_state). i < length (sourceNodes busy_state) \<longrightarrow>
        playState (sourceNodes s'' ! i)
          = (if playState (sourceNodes busy_state ! i) = Finished then Finished else Stopped)"
    using w f(7) by blast
  then have "\<exists>s'. handle_interrupted 7 (interruption_message None) busy_state = Inr s'
          \<and> playState (sourceNodes s' ! 0) = Finished \<and> playState (sourceNodes s' ! 1) = Stopped"
    using f by (metis (full_types))
  ultimately show ?thesis by blast
qed

text \<open>
  Claim C6: with the session handle cleared, and so in every state that stopLive
  leaves, the capture callback makes no call: it neither encodes the frame nor sends
  anything.
\<close>

theorem capture_guarded:
  "(sessionRef s = None \<longrightarrow> onaudioprocess s inputData = [])
   \<and> (\<exists>s'. stopLive s = Inr s' \<and> sessionRef s' = None \<and> onaudioprocess s' inputData = [])"
proof -
  have guarded: "onaudioprocess s0 inputData = []" if "sessionRef s0 = None" for s0
    using that by (simp add: onaudioprocess_def)
  obtain s' where s': "stopLive s = Inr s'" "sessionRef s' = None"
    by (simp add: stopLive_eq)
  then have "onaudioprocess s' inputData = []"
    by (simp add: guarded)
  with s' guarded show ?thesis by blast
qed

lemma spec_encode_zero: "spec_encode [0] = of_ascii ''AAA=''"
  by code_simp

theorem capture_guarded_witness:
  "onaudioprocess busy_state [0]
     = [Encoded [0], RealtimeInput \<lparr>data = of_ascii ''AAA='', mimeType = ''audio/pcm;rate=16000''\<rparr>]
   \<and> (\<exists>s'. stopLive busy_state = Inr s' \<and> sessionRef s' = None \<and> onaudioprocess s' [0] = [])"
proof -
  have "onaudioprocess busy_state [0]
     = [Encoded [0], RealtimeInput \<lparr>data = of_ascii ''AAA='', mimeType = ''audio/pcm;rate=16000''\<rparr>]"
    by (simp add: onaudioprocess_def busy_state_def encodeAudioChunk_eq_spec spec_encode_zero)
  then show ?thesis using capture_guarded[of busy_state "[0]"] by blast
qed

end
